theory Spec2Isabelle
  imports Main
begin

section \<open>The broadcast client of App.js as an event-driven state machine\<close>

text \<open>
  The component \<^verbatim>\<open>App\<close> of \<^verbatim>\<open>src/src/App.js\<close> keeps its session in React state
  (\<^verbatim>\<open>isConnected\<close>, \<^verbatim>\<open>isBroadcasting\<close>, \<^verbatim>\<open>connectionInfo\<close>, \<^verbatim>\<open>participants\<close>,
  \<^verbatim>\<open>userId\<close>) and in refs (\<^verbatim>\<open>socketRef\<close>, \<^verbatim>\<open>deviceRef\<close>, the two transport refs,
  \<^verbatim>\<open>producersRef\<close>, \<^verbatim>\<open>consumersRef\<close>, \<^verbatim>\<open>localStreamRef\<close>, \<^verbatim>\<open>pendingProducersRef\<close>,
  \<^verbatim>\<open>creatingConsumerTransportRef\<close>). JavaScript runs it on one thread: a handler
  runs without interruption from one \<^verbatim>\<open>await\<close> to the next, and between two such
  segments any other handler may run.

  The model follows that: the state is one record; the objects the refs point to
  (sockets, devices, transports) live in stores, lists indexed by the order of
  construction, so that two refs to one object alias; every suspended handler is a
  task holding its local variables and the place it waits at; one step runs one
  segment of the source, chosen by an event of the environment (a click, a socket
  notification, or the completion a task waits for, with its outcome).

  Logging is left out. The \<^verbatim>\<open>connect\<close> and \<^verbatim>\<open>produce\<close> callbacks of the two transports
  run inside the library's \<^verbatim>\<open>produce()\<close> and \<^verbatim>\<open>consume()\<close>; their outcome is the outcome
  of these calls, which the environment chooses. The library's constructors
  (\<^verbatim>\<open>new Device\<close>, \<^verbatim>\<open>createSendTransport\<close>, \<^verbatim>\<open>createRecvTransport\<close>, \<^verbatim>\<open>io\<close>) return a new
  object, and reading \<^verbatim>\<open>rtpCapabilities\<close> of a device returns; a method call on a ref
  that is null throws, as in JavaScript. An answer may arrive for any pending
  request, whether the socket it was sent on is still connected or not; notifications
  arrive on connected sockets only.
\<close>

subsection \<open>Data\<close>

record announcement =
  ann_producerId :: string
  ann_userId :: string
  ann_kind :: string

record conn_info =
  ci_url :: string
  ci_token :: string
  ci_url_valid :: bool  \<comment> \<open>whether \<^verbatim>\<open>new URL(connectionInfo.broadcaster.url)\<close> returns\<close>

datatype msg =
  CreateTransport bool bool  \<comment> \<open>\<^verbatim>\<open>producing\<close>, \<^verbatim>\<open>consuming\<close>\<close>
| Consume string
| RefreshProducers

record sock =
  s_open :: bool
  s_userId :: string  \<comment> \<open>the \<^verbatim>\<open>userId\<close> its handlers closed over\<close>
  s_sent :: "msg list"

datatype direction = Send | Recv

record transport =
  t_id :: string
  t_dir :: direction
  t_closed :: bool

record ltrack =
  lt_kind :: string
  lt_stopped :: bool

record track =
  tr_obj :: nat  \<comment> \<open>identity of the track object: the \<^verbatim>\<open>consume()\<close> call that made it\<close>
  tr_kind :: string

record consumer =
  c_id :: string
  c_producerId :: string
  c_kind :: string
  c_transport :: nat
  c_track :: track

record producer =
  pr_id :: string
  pr_transport :: nat

record participant =
  p_userId :: string
  p_stream :: "track list"
  videoProducerId :: "string option"
  audioProducerId :: "string option"

record consume_response =
  r_id :: string
  r_producerId :: string
  r_kind :: string

text \<open>What is left to do for the caller of \<^verbatim>\<open>handleNewProducer\<close>: nothing for the
  \<^verbatim>\<open>newProducer\<close> listener, the rest of the loop over \<^verbatim>\<open>pendingProducersRef.current\<close>
  for the \<^verbatim>\<open>routerCapabilities\<close> listener.\<close>

datatype cont = Live | Drain "announcement list"

datatype task =
  T_fetch
| T_getUserMedia string "conn_info option"
| T_load nat string
| T_createProducerTransport string
| T_produceVideo string bool nat
| T_produceAudio string nat
| T_createConsumerTransport string announcement cont
| T_poll string announcement cont
| T_consumeAck string string
| T_consume nat consume_response string
| T_done
| T_rejected
| T_hung

datatype response =
  FetchOk conn_info
| FetchErr
| MediaOk "ltrack list"
| MediaErr
| LoadOk
| LoadErr
| AckErr
| AckTransport string
| ProduceOk string
| ProduceErr
| AckConsume consume_response
| ConsumeOk
| ConsumeErr
| Timer

datatype sock_event =
  RouterCapabilities
| NewProducer announcement
| PeerDisconnected string

datatype event =
  ClickConnect
| ChangeUserId string
| ClickDisconnect
| ClickStartBroadcast
| ClickStopBroadcast
| SocketEvent nat sock_event
| Resume nat response

record app =
  userId :: string
  isConnected :: bool
  isBroadcasting :: bool
  connectionInfo :: "conn_info option"
  participants :: "string \<rightharpoonup> participant"
  localVideoSrc :: bool
  socketRef :: "nat option"
  deviceRef :: "nat option"
  producerTransportRef :: "nat option"
  consumerTransportRef :: "nat option"
  producersRef :: "string \<rightharpoonup> producer"
  consumersRef :: "string \<rightharpoonup> consumer"
  localStreamRef :: "ltrack list option"
  pendingProducersRef :: "announcement list"
  creatingConsumerTransportRef :: bool
  sockets :: "sock list"
  devices :: "bool list"  \<comment> \<open>one flag per \<^verbatim>\<open>Device\<close>: loaded or not\<close>
  transports :: "transport list"
  tasks :: "task list"

definition init :: "string \<Rightarrow> app" where
  "init uid = \<lparr> userId = uid, isConnected = False, isBroadcasting = False,
     connectionInfo = None, participants = Map.empty, localVideoSrc = False,
     socketRef = None, deviceRef = None, producerTransportRef = None,
     consumerTransportRef = None, producersRef = Map.empty, consumersRef = Map.empty,
     localStreamRef = None, pendingProducersRef = [],
     creatingConsumerTransportRef = False,
     sockets = [], devices = [], transports = [], tasks = [] \<rparr>"

subsection \<open>Helpers\<close>

definition setTask :: "nat \<Rightarrow> task \<Rightarrow> app \<Rightarrow> app" where
  "setTask i t s = s\<lparr>tasks := (tasks s)[i := t]\<rparr>"

definition spawn :: "task \<Rightarrow> app \<Rightarrow> app" where
  "spawn t s = s\<lparr>tasks := tasks s @ [t]\<rparr>"

text \<open>\<^verbatim>\<open>socketRef.current.emit(...)\<close>: a TypeError (\<open>None\<close>) when the ref is null.\<close>

definition emit :: "msg \<Rightarrow> app \<Rightarrow> app option" where
  "emit m s = (case socketRef s of
       None \<Rightarrow> None
     | Some k \<Rightarrow> Some (s\<lparr>sockets := (sockets s)[k := (sockets s ! k)\<lparr>s_sent := s_sent (sockets s ! k) @ [m]\<rparr>]\<rparr>))"

definition closeTransport :: "nat option \<Rightarrow> transport list \<Rightarrow> transport list" where
  "closeTransport r ts = (case r of None \<Rightarrow> ts | Some k \<Rightarrow> ts[k := (ts ! k)\<lparr>t_closed := True\<rparr>])"

definition disconnectSocket :: "nat option \<Rightarrow> sock list \<Rightarrow> sock list" where
  "disconnectSocket r ss = (case r of None \<Rightarrow> ss | Some k \<Rightarrow> ss[k := (ss ! k)\<lparr>s_open := False\<rparr>])"

definition stopTracks :: "app \<Rightarrow> app" where
  "stopTracks s = (case localStreamRef s of
       None \<Rightarrow> s
     | Some trs \<Rightarrow> s\<lparr>localStreamRef := Some (map (\<lambda>t. t\<lparr>lt_stopped := True\<rparr>) trs),
                     localVideoSrc := False\<rparr>)"

text \<open>\<^verbatim>\<open>MediaStream.addTrack\<close>: a track already in the stream is not added again.\<close>

definition addTrack :: "track \<Rightarrow> track list \<Rightarrow> track list" where
  "addTrack t st = (if t \<in> set st then st else st @ [t])"

subsection \<open>connect, disconnect, stopBroadcast\<close>

definition connect_done :: "conn_info \<Rightarrow> app \<Rightarrow> app" where
  "connect_done d s = s\<lparr>connectionInfo := Some d, isConnected := True\<rparr>"

definition disconnect :: "app \<Rightarrow> app" where
  "disconnect s =
     (let s1 = stopTracks s;
          s2 = s1\<lparr>sockets := disconnectSocket (socketRef s1) (sockets s1), socketRef := None\<rparr>
      in s2\<lparr>isConnected := False, isBroadcasting := False, connectionInfo := None,
             participants := Map.empty\<rparr>)"

definition stopBroadcast :: "app \<Rightarrow> app" where
  "stopBroadcast s =
     (let s1 = stopTracks s;
          s2 = s1\<lparr>transports := closeTransport (producerTransportRef s1) (transports s1)\<rparr>;
          s3 = s2\<lparr>transports := closeTransport (consumerTransportRef s2) (transports s2)\<rparr>;
          s4 = s3\<lparr>sockets := disconnectSocket (socketRef s3) (sockets s3)\<rparr>
      in s4\<lparr>producersRef := Map.empty, consumersRef := Map.empty,
             participants := Map.empty, isBroadcasting := False\<rparr>)"

subsection \<open>startBroadcast\<close>

text \<open>The part of \<^verbatim>\<open>startBroadcast\<close> after \<^verbatim>\<open>await getUserMedia\<close>. The \<^verbatim>\<open>try\<close> block
  catches a rejected \<^verbatim>\<open>getUserMedia\<close>, a null \<^verbatim>\<open>connectionInfo\<close> and a URL that does not
  parse; what was assigned before the throw stays.\<close>

definition startBroadcast_media :: "nat \<Rightarrow> string \<Rightarrow> conn_info option \<Rightarrow> ltrack list \<Rightarrow> app \<Rightarrow> app" where
  "startBroadcast_media i uid ci stream s =
     (let s1 = setTask i T_done (s\<lparr>localStreamRef := Some stream, localVideoSrc := True\<rparr>)
      in case ci of
           None \<Rightarrow> s1
         | Some info \<Rightarrow>
             if \<not> ci_url_valid info then s1
             else s1\<lparr>sockets := sockets s1 @ [\<lparr>s_open = True, s_userId = uid, s_sent = []\<rparr>],
                     socketRef := Some (length (sockets s1)),
                     isBroadcasting := True\<rparr>)"

subsection \<open>consumeStream and its callback\<close>

text \<open>\<^verbatim>\<open>consumeStream\<close> up to the return of \<^verbatim>\<open>emit\<close>: it throws (\<open>None\<close>) when
  \<^verbatim>\<open>socketRef.current\<close> or \<^verbatim>\<open>deviceRef.current\<close> is null; the callback it passes is a new
  task.\<close>

definition consumeStream :: "string \<Rightarrow> string \<Rightarrow> app \<Rightarrow> app option" where
  "consumeStream producerId remoteUserId s =
     (if deviceRef s = None then None
      else case emit (Consume producerId) s of
             None \<Rightarrow> None
           | Some s' \<Rightarrow> Some (spawn (T_consumeAck producerId remoteUserId) s'))"

definition consume_ack :: "nat \<Rightarrow> string \<Rightarrow> consume_response \<Rightarrow> app \<Rightarrow> app" where
  "consume_ack i remoteUserId resp s =
     (case consumerTransportRef s of
        None \<Rightarrow> setTask i T_rejected s
      | Some k \<Rightarrow> setTask i (T_consume k resp remoteUserId) s)"

text \<open>The updater passed to \<^verbatim>\<open>setParticipants\<close>.\<close>

definition updateParticipant :: "string \<Rightarrow> consume_response \<Rightarrow> track \<Rightarrow>
    (string \<rightharpoonup> participant) \<Rightarrow> (string \<rightharpoonup> participant)" where
  "updateParticipant remoteUserId resp tr prev =
     (let p0 = (case prev remoteUserId of
                  Some p \<Rightarrow> p
                | None \<Rightarrow> \<lparr>p_userId = remoteUserId, p_stream = [],
                           videoProducerId = None, audioProducerId = None\<rparr>);
          p1 = p0\<lparr>p_stream := addTrack tr (p_stream p0)\<rparr>;
          p2 = (if r_kind resp = ''video'' then p1\<lparr>videoProducerId := Some (r_producerId resp)\<rparr>
                else if r_kind resp = ''audio'' then p1\<lparr>audioProducerId := Some (r_producerId resp)\<rparr>
                else p1)
      in prev(remoteUserId \<mapsto> p2))"

definition consume_done :: "nat \<Rightarrow> nat \<Rightarrow> consume_response \<Rightarrow> string \<Rightarrow> app \<Rightarrow> app" where
  "consume_done i k resp remoteUserId s =
     (let tr = \<lparr>tr_obj = i, tr_kind = r_kind resp\<rparr>;
          c = \<lparr>c_id = r_id resp, c_producerId = r_producerId resp, c_kind = r_kind resp,
               c_transport = k, c_track = tr\<rparr>
      in setTask i T_done
           (s\<lparr>consumersRef := (consumersRef s)(c_id c \<mapsto> c),
              participants := updateParticipant remoteUserId resp tr (participants s)\<rparr>))"

subsection \<open>handleNewProducer\<close>

text \<open>The \<^verbatim>\<open>while\<close> loop of \<^verbatim>\<open>handleNewProducer\<close> and the call of \<^verbatim>\<open>consumeStream\<close> after
  it. \<open>Inl\<close>: the handler is suspended on the 50 ms timer, or has thrown; \<open>Inr\<close>: it
  has returned.\<close>

definition awaitAndConsume :: "nat \<Rightarrow> string \<Rightarrow> announcement \<Rightarrow> cont \<Rightarrow> app \<Rightarrow> app + app" where
  "awaitAndConsume i uid a c s =
     (if creatingConsumerTransportRef s then Inl (setTask i (T_poll uid a c) s)
      else case consumeStream (ann_producerId a) (ann_userId a) s of
             None \<Rightarrow> Inl (setTask i T_rejected s)
           | Some s' \<Rightarrow> Inr s')"

definition handleNewProducer :: "nat \<Rightarrow> string \<Rightarrow> announcement \<Rightarrow> cont \<Rightarrow> app \<Rightarrow> app + app" where
  "handleNewProducer i uid a c s =
     (if ann_userId a = uid then Inr s
      else if consumerTransportRef s = None \<and> \<not> creatingConsumerTransportRef s then
        (let s1 = s\<lparr>creatingConsumerTransportRef := True\<rparr>
         in case emit (CreateTransport False True) s1 of
              None \<Rightarrow> Inl (setTask i T_rejected s1)
            | Some s2 \<Rightarrow> Inl (setTask i (T_createConsumerTransport uid a c) s2))
      else awaitAndConsume i uid a c s)"

text \<open>The loop \<^verbatim>\<open>for (const producer of pendingProducersRef.current)\<close> of the
  \<^verbatim>\<open>routerCapabilities\<close> listener, from the announcement it has reached, and the
  assignment of the empty array after it.\<close>

fun drain :: "nat \<Rightarrow> string \<Rightarrow> announcement list \<Rightarrow> app \<Rightarrow> app" where
  "drain i uid [] s = setTask i T_done (s\<lparr>pendingProducersRef := []\<rparr>)"
| "drain i uid (a # rest) s =
     (case handleNewProducer i uid a (Drain rest) s of
        Inl s' \<Rightarrow> s'
      | Inr s' \<Rightarrow> drain i uid rest s')"

text \<open>What runs when a call of \<^verbatim>\<open>handleNewProducer\<close> returns.\<close>

definition continue :: "nat \<Rightarrow> string \<Rightarrow> cont \<Rightarrow> app \<Rightarrow> app" where
  "continue i uid c s = (case c of Live \<Rightarrow> setTask i T_done s | Drain rest \<Rightarrow> drain i uid rest s)"

definition resumeHandler :: "nat \<Rightarrow> string \<Rightarrow> cont \<Rightarrow> app + app \<Rightarrow> app" where
  "resumeHandler i uid c r = (case r of Inl s' \<Rightarrow> s' | Inr s' \<Rightarrow> continue i uid c s')"

text \<open>The callback of \<^verbatim>\<open>createConsumerTransport\<close> and, when it resolves the
  promise, the rest of \<^verbatim>\<open>handleNewProducer\<close>.\<close>

definition createConsumerTransport_ack :: "nat \<Rightarrow> string \<Rightarrow> announcement \<Rightarrow> cont \<Rightarrow> response \<Rightarrow> app \<Rightarrow> app" where
  "createConsumerTransport_ack i uid a c r s =
     (case r of
        AckErr \<Rightarrow> setTask i T_rejected s
      | AckTransport tid \<Rightarrow>
          (case deviceRef s of
             None \<Rightarrow> setTask i T_hung s
           | Some d \<Rightarrow>
               (let s1 = s\<lparr>transports := transports s @ [\<lparr>t_id = tid, t_dir = Recv, t_closed = False\<rparr>],
                           consumerTransportRef := Some (length (transports s))\<rparr>;
                    s2 = s1\<lparr>creatingConsumerTransportRef := False\<rparr>
                in resumeHandler i uid c (awaitAndConsume i uid a c s2)))
      | _ \<Rightarrow> s)"

subsection \<open>The routerCapabilities listener and createProducerTransport\<close>

definition routerCapabilities :: "string \<Rightarrow> app \<Rightarrow> app" where
  "routerCapabilities uid s =
     spawn (T_load (length (devices s)) uid)
       (s\<lparr>devices := devices s @ [False], deviceRef := Some (length (devices s))\<rparr>)"

definition load_done :: "nat \<Rightarrow> nat \<Rightarrow> string \<Rightarrow> app \<Rightarrow> app" where
  "load_done i d uid s =
     (let s1 = s\<lparr>devices := (devices s)[d := True]\<rparr>
      in case emit (CreateTransport True False) s1 of
           None \<Rightarrow> setTask i T_rejected s1
         | Some s2 \<Rightarrow> setTask i (T_createProducerTransport uid) s2)"

text \<open>A task waiting for \<^verbatim>\<open>produce()\<close> keeps the transport it called it on. After the
  last \<^verbatim>\<open>produce()\<close>: \<^verbatim>\<open>emit('refresh-producers')\<close>, \<^verbatim>\<open>resolve()\<close>, and the
  listener goes on to the pending producers.\<close>

definition afterProduce :: "nat \<Rightarrow> string \<Rightarrow> app \<Rightarrow> app" where
  "afterProduce i uid s =
     (case emit RefreshProducers s of
        None \<Rightarrow> setTask i T_hung s
      | Some s1 \<Rightarrow>
          if pendingProducersRef s1 \<noteq> [] then drain i uid (pendingProducersRef s1) s1
          else setTask i T_done s1)"

definition produceAudio :: "nat \<Rightarrow> string \<Rightarrow> bool \<Rightarrow> app \<Rightarrow> app" where
  "produceAudio i uid audioTrack s =
     (if audioTrack then
        (case producerTransportRef s of
           None \<Rightarrow> setTask i T_hung s
         | Some k \<Rightarrow> setTask i (T_produceAudio uid k) s)
      else afterProduce i uid s)"

definition createProducerTransport_ack :: "nat \<Rightarrow> string \<Rightarrow> response \<Rightarrow> app \<Rightarrow> app" where
  "createProducerTransport_ack i uid r s =
     (case r of
        AckErr \<Rightarrow> setTask i T_rejected s
      | AckTransport tid \<Rightarrow>
          (case deviceRef s of
             None \<Rightarrow> setTask i T_hung s
           | Some d \<Rightarrow>
               (let s1 = s\<lparr>transports := transports s @ [\<lparr>t_id = tid, t_dir = Send, t_closed = False\<rparr>],
                           producerTransportRef := Some (length (transports s))\<rparr>
                in case localStreamRef s1 of
                     None \<Rightarrow> setTask i T_hung s1
                   | Some trs \<Rightarrow>
                       (let videoTrack = (\<exists>t \<in> set trs. lt_kind t = ''video'');
                            audioTrack = (\<exists>t \<in> set trs. lt_kind t = ''audio'')
                        in if videoTrack
                           then setTask i (T_produceVideo uid audioTrack (length (transports s))) s1
                           else produceAudio i uid audioTrack s1)))
      | _ \<Rightarrow> s)"

definition produceVideo_done :: "nat \<Rightarrow> string \<Rightarrow> bool \<Rightarrow> nat \<Rightarrow> response \<Rightarrow> app \<Rightarrow> app" where
  "produceVideo_done i uid audioTrack k r s =
     (case r of
        ProduceErr \<Rightarrow> setTask i T_hung s
      | ProduceOk pid \<Rightarrow>
          produceAudio i uid audioTrack
            (s\<lparr>producersRef := (producersRef s)(''video'' \<mapsto> \<lparr>pr_id = pid, pr_transport = k\<rparr>)\<rparr>)
      | _ \<Rightarrow> s)"

definition produceAudio_done :: "nat \<Rightarrow> string \<Rightarrow> nat \<Rightarrow> response \<Rightarrow> app \<Rightarrow> app" where
  "produceAudio_done i uid k r s =
     (case r of
        ProduceErr \<Rightarrow> setTask i T_hung s
      | ProduceOk pid \<Rightarrow>
          afterProduce i uid
            (s\<lparr>producersRef := (producersRef s)(''audio'' \<mapsto> \<lparr>pr_id = pid, pr_transport = k\<rparr>)\<rparr>)
      | _ \<Rightarrow> s)"

subsection \<open>The newProducer and peerDisconnected listeners\<close>

definition newProducer :: "string \<Rightarrow> announcement \<Rightarrow> app \<Rightarrow> app" where
  "newProducer uid a s =
     (if deviceRef s = None then s\<lparr>pendingProducersRef := pendingProducersRef s @ [a]\<rparr>
      else (let i = length (tasks s)
            in resumeHandler i uid Live (handleNewProducer i uid a Live (spawn T_done s))))"

definition peerDisconnected :: "string \<Rightarrow> app \<Rightarrow> app" where
  "peerDisconnected disconnectedUserId s =
     s\<lparr>participants := (participants s)(disconnectedUserId := None)\<rparr>"

subsection \<open>One step, and runs\<close>

definition resume :: "nat \<Rightarrow> response \<Rightarrow> app \<Rightarrow> app" where
  "resume i r s =
     (if i < length (tasks s) then
        (case tasks s ! i of
           T_fetch \<Rightarrow>
             (case r of FetchOk d \<Rightarrow> setTask i T_done (connect_done d s)
                      | FetchErr \<Rightarrow> setTask i T_done s
                      | _ \<Rightarrow> s)
         | T_getUserMedia uid ci \<Rightarrow>
             (case r of MediaOk stream \<Rightarrow> startBroadcast_media i uid ci stream s
                      | MediaErr \<Rightarrow> setTask i T_done s
                      | _ \<Rightarrow> s)
         | T_load d uid \<Rightarrow>
             (case r of LoadOk \<Rightarrow> load_done i d uid s
                      | LoadErr \<Rightarrow> setTask i T_rejected s
                      | _ \<Rightarrow> s)
         | T_createProducerTransport uid \<Rightarrow> createProducerTransport_ack i uid r s
         | T_produceVideo uid audioTrack k \<Rightarrow> produceVideo_done i uid audioTrack k r s
         | T_produceAudio uid k \<Rightarrow> produceAudio_done i uid k r s
         | T_createConsumerTransport uid a c \<Rightarrow> createConsumerTransport_ack i uid a c r s
         | T_poll uid a c \<Rightarrow>
             (case r of Timer \<Rightarrow> resumeHandler i uid c (awaitAndConsume i uid a c s) | _ \<Rightarrow> s)
         | T_consumeAck producerId remoteUserId \<Rightarrow>
             (case r of AckErr \<Rightarrow> setTask i T_done s
                      | AckConsume resp \<Rightarrow> consume_ack i remoteUserId resp s
                      | _ \<Rightarrow> s)
         | T_consume k resp remoteUserId \<Rightarrow>
             (case r of ConsumeOk \<Rightarrow> consume_done i k resp remoteUserId s
                      | ConsumeErr \<Rightarrow> setTask i T_rejected s
                      | _ \<Rightarrow> s)
         | T_done \<Rightarrow> s
         | T_rejected \<Rightarrow> s
         | T_hung \<Rightarrow> s)
      else s)"

definition socketEvent :: "nat \<Rightarrow> sock_event \<Rightarrow> app \<Rightarrow> app" where
  "socketEvent k e s =
     (if k < length (sockets s) \<and> s_open (sockets s ! k) then
        (let uid = s_userId (sockets s ! k)
         in case e of
              RouterCapabilities \<Rightarrow> routerCapabilities uid s
            | NewProducer a \<Rightarrow> newProducer uid a s
            | PeerDisconnected u \<Rightarrow> peerDisconnected u s)
      else s)"

text \<open>The buttons are enabled as the JSX says: Connect is shown while
  \<^verbatim>\<open>!isConnected\<close>, Disconnect while \<^verbatim>\<open>isConnected\<close>; Start Broadcasting is disabled
  when \<^verbatim>\<open>!isConnected || isBroadcasting\<close>, Stop Broadcasting when \<^verbatim>\<open>!isBroadcasting\<close>;
  the user id field is disabled while \<^verbatim>\<open>isConnected\<close>.\<close>

definition step :: "app \<Rightarrow> event \<Rightarrow> app" where
  "step s e =
     (case e of
        ClickConnect \<Rightarrow> if \<not> isConnected s then spawn T_fetch s else s
      | ChangeUserId u \<Rightarrow> if \<not> isConnected s then s\<lparr>userId := u\<rparr> else s
      | ClickDisconnect \<Rightarrow> if isConnected s then disconnect s else s
      | ClickStartBroadcast \<Rightarrow>
          if isConnected s \<and> \<not> isBroadcasting s
          then spawn (T_getUserMedia (userId s) (connectionInfo s)) s else s
      | ClickStopBroadcast \<Rightarrow> if isBroadcasting s then stopBroadcast s else s
      | SocketEvent k ev \<Rightarrow> socketEvent k ev s
      | Resume i r \<Rightarrow> resume i r s)"

definition run :: "app \<Rightarrow> event list \<Rightarrow> app" where
  "run s es = foldl step s es"

subsection \<open>What the handling of announcements leaves alone\<close>

text \<open>\<^verbatim>\<open>handleNewProducer\<close>, \<^verbatim>\<open>consumeStream\<close> and the loop over the pending producers
  write to the task pool, to the messages sent on the sockets, to
  \<^verbatim>\<open>creatingConsumerTransportRef\<close> and to \<^verbatim>\<open>pendingProducersRef\<close> only.\<close>

definition handler_frame :: "app \<Rightarrow> app \<Rightarrow> bool" where
  "handler_frame s s' \<longleftrightarrow>
     userId s' = userId s \<and> isConnected s' = isConnected s \<and> isBroadcasting s' = isBroadcasting s \<and>
     connectionInfo s' = connectionInfo s \<and> participants s' = participants s \<and>
     localVideoSrc s' = localVideoSrc s \<and> socketRef s' = socketRef s \<and> deviceRef s' = deviceRef s \<and>
     producerTransportRef s' = producerTransportRef s \<and> consumerTransportRef s' = consumerTransportRef s \<and>
     producersRef s' = producersRef s \<and> consumersRef s' = consumersRef s \<and>
     localStreamRef s' = localStreamRef s \<and> devices s' = devices s \<and> transports s' = transports s \<and>
     length (sockets s') = length (sockets s) \<and>
     (\<forall>k < length (sockets s). s_open (sockets s' ! k) = s_open (sockets s ! k) \<and>
         s_userId (sockets s' ! k) = s_userId (sockets s ! k))"

subsection \<open>The guard of the inbound transport\<close>

text \<open>A task is creating the inbound transport when it waits for the answer to the
  \<^verbatim>\<open>createTransport\<close> request of \<^verbatim>\<open>createConsumerTransport\<close>; a transport is inbound
  when \<^verbatim>\<open>createRecvTransport\<close> made it.

  What each suspended task may rely on, given the flag
  \<^verbatim>\<open>creatingConsumerTransportRef\<close>, the ref \<^verbatim>\<open>consumerTransportRef\<close> and the ref
  \<^verbatim>\<open>deviceRef\<close>: a task creating the transport runs with the flag set and no handle
  cached; a polling task has the flag set or a handle cached; a task of
  \<^verbatim>\<open>consumeStream\<close>'s callback has a handle cached, and once it has called \<^verbatim>\<open>consume()\<close>
  it was on that handle. \<open>tasks_ok\<close> says so of every task outside a set \<open>X\<close> (the
  task that is running), and that at most one task outside \<open>X\<close> is creating the
  transport. \<open>cached_ok\<close> relates the cached handle to the store of transports and
  to the registered consumers; \<open>ginv\<close> is the invariant of the guard.\<close>

fun creating :: "task \<Rightarrow> bool" where
  "creating (T_createConsumerTransport uid a c) = True"
| "creating t = False"

fun task_ok :: "bool \<Rightarrow> nat option \<Rightarrow> nat option \<Rightarrow> task \<Rightarrow> bool" where
  "task_ok cr tr dev (T_load d uid) = (dev \<noteq> None)"
| "task_ok cr tr dev (T_createProducerTransport uid) = (dev \<noteq> None)"
| "task_ok cr tr dev (T_produceVideo uid b k) = (dev \<noteq> None)"
| "task_ok cr tr dev (T_produceAudio uid k) = (dev \<noteq> None)"
| "task_ok cr tr dev (T_createConsumerTransport uid a c) = (cr \<and> tr = None \<and> dev \<noteq> None)"
| "task_ok cr tr dev (T_poll uid a c) = ((cr \<or> tr \<noteq> None) \<and> dev \<noteq> None)"
| "task_ok cr tr dev (T_consumeAck p u) = (tr \<noteq> None)"
| "task_ok cr tr dev (T_consume k r u) = (tr = Some k)"
| "task_ok cr tr dev t = True"

definition tasks_ok :: "nat set \<Rightarrow> bool \<Rightarrow> nat option \<Rightarrow> nat option \<Rightarrow> task list \<Rightarrow> bool" where
  "tasks_ok X cr tr dev ts \<longleftrightarrow>
     (\<forall>j < length ts. j \<notin> X \<longrightarrow> task_ok cr tr dev (ts ! j)) \<and>
     (\<forall>j < length ts. \<forall>j' < length ts. j \<notin> X \<longrightarrow> j' \<notin> X \<longrightarrow>
         creating (ts ! j) \<longrightarrow> creating (ts ! j') \<longrightarrow> j = j')"

definition cached_ok :: "app \<Rightarrow> bool" where
  "cached_ok s \<longleftrightarrow>
     (\<forall>k < length (transports s). t_dir (transports s ! k) = Recv \<longrightarrow> consumerTransportRef s = Some k) \<and>
     (\<forall>k. consumerTransportRef s = Some k \<longrightarrow>
          k < length (transports s) \<and> t_dir (transports s ! k) = Recv \<and> \<not> creatingConsumerTransportRef s) \<and>
     (\<forall>c \<in> ran (consumersRef s). consumerTransportRef s = Some (c_transport c))"

definition ginv :: "nat set \<Rightarrow> app \<Rightarrow> bool" where
  "ginv X s \<longleftrightarrow>
     cached_ok s \<and>
     tasks_ok X (creatingConsumerTransportRef s) (consumerTransportRef s) (deviceRef s) (tasks s)"

definition inbound :: "transport \<Rightarrow> bool" where
  "inbound t \<longleftrightarrow> t_dir t = Recv"

text \<open>From \<open>s\<close> to \<open>s'\<close> the task pool has only grown, and no task but the one at
  \<open>i\<close> has changed.\<close>

definition keeps :: "nat \<Rightarrow> app \<Rightarrow> app \<Rightarrow> bool" where
  "keeps i s s' \<longleftrightarrow> length (tasks s) \<le> length (tasks s') \<and>
     (\<forall>j < length (tasks s). j \<noteq> i \<longrightarrow> tasks s' ! j = tasks s ! j)"

text \<open>The flag is set, no handle is cached and no task is creating the transport:
  nothing is left that would clear the flag.\<close>

definition stuck :: "app \<Rightarrow> bool" where
  "stuck s \<longleftrightarrow> creatingConsumerTransportRef s \<and> consumerTransportRef s = None \<and>
     (\<forall>t \<in> set (tasks s). \<not> creating t)"

subsection \<open>Negotiation and the broadcasting flag\<close>




subsection \<open>The loop over the pending producers\<close>

text \<open>A task is in the loop over the pending producers when it is a call of
  \<^verbatim>\<open>handleNewProducer\<close> made by that loop and suspended. The queue has been drained
  when a device exists, the queue is empty and no task is in the loop.\<close>

fun draining :: "task \<Rightarrow> bool" where
  "draining (T_createConsumerTransport uid a (Drain rest)) = True"
| "draining (T_poll uid a (Drain rest)) = True"
| "draining t = False"

definition nodrain :: "app \<Rightarrow> bool" where
  "nodrain s \<longleftrightarrow> (\<forall>t \<in> set (tasks s). \<not> draining t)"

definition drained :: "app \<Rightarrow> bool" where
  "drained s \<longleftrightarrow> deviceRef s \<noteq> None \<and> pendingProducersRef s = [] \<and> nodrain s"

subsection \<open>Sequences of consumed announcements\<close>

text \<open>The participant map after the \<^verbatim>\<open>setParticipants\<close> updater has run for each of a
  list of consumed announcements of one remote user, in order; and the producer id of
  the last announcement of a kind in such a list.\<close>

fun consumed :: "string \<Rightarrow> (consume_response \<times> track) list \<Rightarrow> (string \<rightharpoonup> participant) \<Rightarrow> (string \<rightharpoonup> participant)" where
  "consumed u [] P = P"
| "consumed u ((r, t) # xs) P = consumed u xs (updateParticipant u r t P)"

definition lastProducer :: "string \<Rightarrow> (consume_response \<times> track) list \<Rightarrow> string option" where
  "lastProducer k xs =
     (let ys = filter (\<lambda>x. r_kind (fst x) = k) xs
      in if ys = [] then None else Some (r_producerId (fst (last ys))))"

subsection \<open>Example sessions\<close>

text \<open>User \<open>me\<close> connects, starts to broadcast with a camera and a microphone, the
  router's capabilities arrive and both local tracks are published; then \<open>alice\<close>
  announces a video producer, an audio producer, and a second video producer. Task
  numbers are positions in the task pool.\<close>

definition info0 :: conn_info where
  "info0 = \<lparr>ci_url = ''https://sfu.example/room'', ci_token = ''tok'', ci_url_valid = True\<rparr>"

definition cam :: "ltrack list" where
  "cam = [\<lparr>lt_kind = ''video'', lt_stopped = False\<rparr>, \<lparr>lt_kind = ''audio'', lt_stopped = False\<rparr>]"

definition ann :: "string \<Rightarrow> string \<Rightarrow> string \<Rightarrow> announcement" where
  "ann p u k = \<lparr>ann_producerId = p, ann_userId = u, ann_kind = k\<rparr>"

definition desc :: "string \<Rightarrow> string \<Rightarrow> string \<Rightarrow> consume_response" where
  "desc c p k = \<lparr>r_id = c, r_producerId = p, r_kind = k\<rparr>"

definition ev_clicked :: "event list" where
  "ev_clicked = [ClickConnect, Resume 0 (FetchOk info0), ClickStartBroadcast]"

definition ev_started :: "event list" where
  "ev_started = ev_clicked @ [Resume 1 (MediaOk cam)]"

definition ev_negotiated :: "event list" where
  "ev_negotiated = ev_started @
     [SocketEvent 0 RouterCapabilities, Resume 2 LoadOk, Resume 2 (AckTransport ''send-1''),
      Resume 2 (ProduceOk ''my-video''), Resume 2 (ProduceOk ''my-audio'')]"

definition ev_alice :: "event list" where
  "ev_alice = ev_negotiated @
     [SocketEvent 0 (NewProducer (ann ''p1'' ''alice'' ''video'')), Resume 3 (AckTransport ''recv-1''),
      Resume 4 (AckConsume (desc ''c1'' ''p1'' ''video'')), Resume 4 ConsumeOk,
      SocketEvent 0 (NewProducer (ann ''p2'' ''alice'' ''audio'')),
      Resume 6 (AckConsume (desc ''c2'' ''p2'' ''audio'')), Resume 6 ConsumeOk]"

definition ev_alice_again :: "event list" where
  "ev_alice_again = ev_alice @
     [SocketEvent 0 (NewProducer (ann ''p3'' ''alice'' ''video'')),
      Resume 8 (AckConsume (desc ''c3'' ''p3'' ''video'')), Resume 8 ConsumeOk]"


definition s_started :: app where "s_started = run (init ''me'') ev_started"
definition s_negotiated :: app where "s_negotiated = run (init ''me'') ev_negotiated"
definition s_alice :: app where "s_alice = run (init ''me'') ev_alice"
definition s_alice_again :: app where "s_alice_again = run (init ''me'') ev_alice_again"

definition consumer_c1 :: consumer where
  "consumer_c1 = \<lparr>c_id = ''c1'', c_producerId = ''p1'', c_kind = ''video'', c_transport = 1,
                   c_track = \<lparr>tr_obj = 4, tr_kind = ''video''\<rparr>\<rparr>"

definition two_videos :: "(consume_response \<times> track) list" where
  "two_videos = [(desc ''c1'' ''p1'' ''video'', \<lparr>tr_obj = 4, tr_kind = ''video''\<rparr>),
                 (desc ''c3'' ''p3'' ''video'', \<lparr>tr_obj = 8, tr_kind = ''video''\<rparr>)]"

text \<open>The signaling server answers the request for the inbound transport with an
  error; then carol announces a producer and her handler's timer fires twice.\<close>

definition ev_create_failed :: "event list" where
  "ev_create_failed = ev_negotiated @
     [SocketEvent 0 (NewProducer (ann ''p1'' ''bob'' ''video'')), Resume 3 AckErr]"

definition ev_retry :: "event list" where
  "ev_retry = ev_create_failed @
     [SocketEvent 0 (NewProducer (ann ''p2'' ''carol'' ''video'')), Resume 4 Timer, Resume 4 Timer]"

definition s_create_failed :: app where "s_create_failed = run (init ''me'') ev_create_failed"
definition s_retry :: app where "s_retry = run (init ''me'') ev_retry"

text \<open>An announcement arrives before the router's capabilities and one after the
  device is loaded, while the request for the outbound transport is not answered
  yet; then both transports are created and the local tracks published. And: an
  announcement arrives while the device is loading.\<close>

definition ev_overtaken :: "event list" where
  "ev_overtaken = ev_started @
     [SocketEvent 0 (NewProducer (ann ''p1'' ''early'' ''video'')),
      SocketEvent 0 RouterCapabilities, Resume 2 LoadOk,
      SocketEvent 0 (NewProducer (ann ''p2'' ''late'' ''video''))]"

definition ev_overtaken_end :: "event list" where
  "ev_overtaken_end = ev_overtaken @
     [Resume 3 (AckTransport ''recv-1''), Resume 2 (AckTransport ''send-1''),
      Resume 2 (ProduceOk ''my-video''), Resume 2 (ProduceOk ''my-audio'')]"

definition ev_loading :: "event list" where
  "ev_loading = ev_started @
     [SocketEvent 0 RouterCapabilities, SocketEvent 0 (NewProducer (ann ''p1'' ''bob'' ''video''))]"

definition s_overtaken :: app where "s_overtaken = run (init ''me'') ev_overtaken"
definition s_overtaken_end :: app where "s_overtaken_end = run (init ''me'') ev_overtaken_end"
definition s_loading :: app where "s_loading = run (init ''me'') ev_loading"

text \<open>After alice is consumed: Stop Broadcasting, then Start Broadcasting again and
  the second negotiation, on the second socket.\<close>

definition ev_stopped :: "event list" where
  "ev_stopped = ev_alice @ [ClickStopBroadcast]"

definition ev_restarted :: "event list" where
  "ev_restarted = ev_stopped @ [ClickStartBroadcast, Resume 7 (MediaOk cam)]"

definition ev_renegotiated :: "event list" where
  "ev_renegotiated = ev_restarted @
     [SocketEvent 1 RouterCapabilities, Resume 8 LoadOk, Resume 8 (AckTransport ''send-2''),
      Resume 8 (ProduceOk ''my-video-2''), Resume 8 (ProduceOk ''my-audio-2'')]"

definition s_stopped :: app where "s_stopped = run (init ''me'') ev_stopped"
definition s_restarted :: app where "s_restarted = run (init ''me'') ev_restarted"
definition s_renegotiated :: app where "s_renegotiated = run (init ''me'') ev_renegotiated"

text \<open>What follows the drained queue in one of the examples: another announcement,
  and the router's capabilities once more with the negotiation they start.\<close>

definition ev_after_drain :: "event list" where
  "ev_after_drain =
     [SocketEvent 0 (NewProducer (ann ''p3'' ''dave'' ''audio'')),
      SocketEvent 0 RouterCapabilities, Resume 8 LoadOk, Resume 8 (AckTransport ''send-2''),
      Resume 8 (ProduceOk ''my-video-2''), Resume 8 (ProduceOk ''my-audio-2'')]"

text \<open>After negotiation, the producers of \<open>b\<close>, \<open>c\<close> and \<open>d\<close> are announced one after
  the other, before the server has answered the request for the inbound transport;
  then the answer arrives; then the timers of the two waiting handlers fire and the
  server answers the three requests to consume.\<close>

definition ev_three :: "event list" where
  "ev_three = ev_negotiated @
     [SocketEvent 0 (NewProducer (ann ''p1'' ''b'' ''video'')),
      SocketEvent 0 (NewProducer (ann ''p2'' ''c'' ''video'')),
      SocketEvent 0 (NewProducer (ann ''p3'' ''d'' ''video''))]"

definition ev_three_created :: "event list" where
  "ev_three_created = ev_three @ [Resume 3 (AckTransport ''recv-1'')]"

definition ev_three_consuming :: "event list" where
  "ev_three_consuming = ev_three_created @
     [Resume 4 Timer, Resume 5 Timer,
      Resume 6 (AckConsume (desc ''c1'' ''p1'' ''video'')),
      Resume 7 (AckConsume (desc ''c2'' ''p2'' ''video'')),
      Resume 8 (AckConsume (desc ''c3'' ''p3'' ''video''))]"

definition s_three :: app where "s_three = run (init ''me'') ev_three"
definition s_three_created :: app where "s_three_created = run (init ''me'') ev_three_created"
definition s_three_consuming :: app where "s_three_consuming = run (init ''me'') ev_three_consuming"



section \<open>Properties\<close>

subsection \<open>Frame lemmas\<close>

lemma handler_frame_refl: "handler_frame s s"
  by (simp add: handler_frame_def)

lemma handler_frame_trans: "handler_frame s s' \<Longrightarrow> handler_frame s' s'' \<Longrightarrow> handler_frame s s''"
  by (simp add: handler_frame_def)

lemma frame_setTask: "handler_frame s (setTask i t s)"
  by (simp add: handler_frame_def setTask_def)

lemma frame_spawn: "handler_frame s (spawn t s)"
  by (simp add: handler_frame_def spawn_def)

lemma nth_update_sent:
  "k < length ss \<Longrightarrow> s_open (ss[j := (ss ! j)\<lparr>s_sent := x\<rparr>] ! k) = s_open (ss ! k) \<and>
     s_userId (ss[j := (ss ! j)\<lparr>s_sent := x\<rparr>] ! k) = s_userId (ss ! k)"
  by (cases "k = j") auto

lemma frame_emit: "emit m s = Some s' \<Longrightarrow> handler_frame s s'"
  by (auto simp: handler_frame_def emit_def nth_update_sent split: option.splits)

lemma consumeStream_Some:
  assumes "consumeStream p u s = Some s'"
  obtains s1 where "deviceRef s \<noteq> None" and "emit (Consume p) s = Some s1"
    and "s' = spawn (T_consumeAck p u) s1"
  using assms by (auto simp: consumeStream_def split: option.splits if_splits)

lemma frame_consumeStream: "consumeStream p u s = Some s' \<Longrightarrow> handler_frame s s'"
  by (erule consumeStream_Some) (auto intro: handler_frame_trans [OF frame_emit frame_spawn])

lemma frame_creating: "handler_frame s (s\<lparr>creatingConsumerTransportRef := b\<rparr>)"
  by (simp add: handler_frame_def)

lemma frame_pending: "handler_frame s (s\<lparr>pendingProducersRef := b\<rparr>)"
  by (simp add: handler_frame_def)

lemma frame_awaitAndConsume_Inl: "awaitAndConsume i uid a c s = Inl s' \<Longrightarrow> handler_frame s s'"
  by (auto simp: awaitAndConsume_def frame_setTask split: option.splits if_splits)

lemma frame_awaitAndConsume_Inr: "awaitAndConsume i uid a c s = Inr s' \<Longrightarrow> handler_frame s s'"
  by (auto simp: awaitAndConsume_def split: option.splits if_splits dest: frame_consumeStream)

lemma frame_handleNewProducer_Inl: "handleNewProducer i uid a c s = Inl s' \<Longrightarrow> handler_frame s s'"
  by (auto simp: handleNewProducer_def Let_def split: option.splits if_splits
      dest: frame_awaitAndConsume_Inl
      intro: handler_frame_trans [OF frame_creating frame_setTask]
             handler_frame_trans [OF frame_creating handler_frame_trans [OF frame_emit frame_setTask]])

lemma frame_handleNewProducer_Inr: "handleNewProducer i uid a c s = Inr s' \<Longrightarrow> handler_frame s s'"
  by (auto simp: handleNewProducer_def Let_def handler_frame_refl split: option.splits if_splits
      dest: frame_awaitAndConsume_Inr)

lemma frame_drain: "handler_frame s (drain i uid todo s)"
proof (induction todo arbitrary: s)
  case Nil
  show ?case
    by (simp add: handler_frame_trans [OF frame_pending frame_setTask])
next
  case (Cons a rest)
  show ?case
  proof (cases "handleNewProducer i uid a (Drain rest) s")
    case (Inl s')
    then show ?thesis by (simp add: frame_handleNewProducer_Inl)
  next
    case (Inr s')
    from frame_handleNewProducer_Inr [OF Inr] Cons.IH [of s'] Inr show ?thesis
      by (auto intro: handler_frame_trans)
  qed
qed

lemma frame_continue: "handler_frame s (continue i uid c s)"
  by (cases c) (simp_all add: continue_def frame_setTask frame_drain)

lemma frame_resumeHandler_await:
  "handler_frame s (resumeHandler i uid c (awaitAndConsume i uid a c' s))"
  by (cases "awaitAndConsume i uid a c' s")
     (auto simp: resumeHandler_def dest: frame_awaitAndConsume_Inl frame_awaitAndConsume_Inr
       intro: handler_frame_trans [OF _ frame_continue])

lemma frame_resumeHandler_handle:
  "handler_frame s (resumeHandler i uid c (handleNewProducer i uid a c' s))"
  by (cases "handleNewProducer i uid a c' s")
     (auto simp: resumeHandler_def dest: frame_handleNewProducer_Inl frame_handleNewProducer_Inr
       intro: handler_frame_trans [OF _ frame_continue])


lemma handler_frameD:
  "handler_frame s s' \<Longrightarrow>
     userId s' = userId s \<and> isConnected s' = isConnected s \<and> isBroadcasting s' = isBroadcasting s \<and>
     connectionInfo s' = connectionInfo s \<and> participants s' = participants s \<and>
     localVideoSrc s' = localVideoSrc s \<and> socketRef s' = socketRef s \<and> deviceRef s' = deviceRef s \<and>
     producerTransportRef s' = producerTransportRef s \<and> consumerTransportRef s' = consumerTransportRef s \<and>
     producersRef s' = producersRef s \<and> consumersRef s' = consumersRef s \<and>
     localStreamRef s' = localStreamRef s \<and> devices s' = devices s \<and> transports s' = transports s \<and>
     length (sockets s') = length (sockets s)"
  by (simp add: handler_frame_def)

lemmas drain_fields [simp] = handler_frameD [OF frame_drain]
lemmas continue_fields [simp] = handler_frameD [OF frame_continue]
lemmas resumeHandler_await_fields [simp] = handler_frameD [OF frame_resumeHandler_await]
lemmas resumeHandler_handle_fields [simp] = handler_frameD [OF frame_resumeHandler_handle]

lemma frame_afterProduce: "handler_frame s (afterProduce i uid s)"
  by (auto simp: afterProduce_def frame_setTask split: option.splits
      intro: handler_frame_trans [OF frame_emit frame_setTask]
             handler_frame_trans [OF frame_emit frame_drain])

lemma frame_produceAudio: "handler_frame s (produceAudio i uid b s)"
  by (auto simp: produceAudio_def frame_setTask frame_afterProduce split: option.splits)

lemmas afterProduce_fields [simp] = handler_frameD [OF frame_afterProduce]
lemmas produceAudio_fields [simp] = handler_frameD [OF frame_produceAudio]

lemma emit_fields:
  "emit m s = Some s' \<Longrightarrow>
     userId s' = userId s \<and> isConnected s' = isConnected s \<and> isBroadcasting s' = isBroadcasting s \<and>
     connectionInfo s' = connectionInfo s \<and> participants s' = participants s \<and>
     localVideoSrc s' = localVideoSrc s \<and> socketRef s' = socketRef s \<and> deviceRef s' = deviceRef s \<and>
     producerTransportRef s' = producerTransportRef s \<and> consumerTransportRef s' = consumerTransportRef s \<and>
     producersRef s' = producersRef s \<and> consumersRef s' = consumersRef s \<and>
     localStreamRef s' = localStreamRef s \<and> devices s' = devices s \<and> transports s' = transports s \<and>
     length (sockets s') = length (sockets s) \<and> tasks s' = tasks s \<and>
     pendingProducersRef s' = pendingProducersRef s \<and>
     creatingConsumerTransportRef s' = creatingConsumerTransportRef s"
  by (auto simp: emit_def split: option.splits)

lemma setTask_fields [simp]:
  "userId (setTask i t s) = userId s" "isConnected (setTask i t s) = isConnected s"
  "isBroadcasting (setTask i t s) = isBroadcasting s" "connectionInfo (setTask i t s) = connectionInfo s"
  "participants (setTask i t s) = participants s" "localVideoSrc (setTask i t s) = localVideoSrc s"
  "socketRef (setTask i t s) = socketRef s" "deviceRef (setTask i t s) = deviceRef s"
  "producerTransportRef (setTask i t s) = producerTransportRef s"
  "consumerTransportRef (setTask i t s) = consumerTransportRef s"
  "producersRef (setTask i t s) = producersRef s" "consumersRef (setTask i t s) = consumersRef s"
  "localStreamRef (setTask i t s) = localStreamRef s" "devices (setTask i t s) = devices s"
  "transports (setTask i t s) = transports s" "sockets (setTask i t s) = sockets s"
  "pendingProducersRef (setTask i t s) = pendingProducersRef s"
  "creatingConsumerTransportRef (setTask i t s) = creatingConsumerTransportRef s"
  "tasks (setTask i t s) = (tasks s)[i := t]"
  by (simp_all add: setTask_def)

lemma spawn_fields [simp]:
  "userId (spawn t s) = userId s" "isConnected (spawn t s) = isConnected s"
  "isBroadcasting (spawn t s) = isBroadcasting s" "connectionInfo (spawn t s) = connectionInfo s"
  "participants (spawn t s) = participants s" "localVideoSrc (spawn t s) = localVideoSrc s"
  "socketRef (spawn t s) = socketRef s" "deviceRef (spawn t s) = deviceRef s"
  "producerTransportRef (spawn t s) = producerTransportRef s"
  "consumerTransportRef (spawn t s) = consumerTransportRef s"
  "producersRef (spawn t s) = producersRef s" "consumersRef (spawn t s) = consumersRef s"
  "localStreamRef (spawn t s) = localStreamRef s" "devices (spawn t s) = devices s"
  "transports (spawn t s) = transports s" "sockets (spawn t s) = sockets s"
  "pendingProducersRef (spawn t s) = pendingProducersRef s"
  "creatingConsumerTransportRef (spawn t s) = creatingConsumerTransportRef s"
  "tasks (spawn t s) = tasks s @ [t]"
  by (simp_all add: spawn_def)

text \<open>C7 amended\<close>

lemma spawn_done_setTask: "setTask (length (tasks s)) T_done (spawn T_done s) = spawn T_done s"
  by (simp add: setTask_def spawn_def)

subsection \<open>Who sets the broadcasting flag\<close>



subsection \<open>The participant updater over a sequence\<close>

lemma updateParticipant_other: "v \<noteq> u \<Longrightarrow> updateParticipant u r t P v = P v"
  by (simp add: updateParticipant_def Let_def)

lemma consumed_other: "v \<noteq> u \<Longrightarrow> consumed u xs P v = P v"
  by (induction u xs P rule: consumed.induct) (simp_all add: updateParticipant_other)

lemma consumed_snoc: "consumed u (xs @ [(r, t)]) P = updateParticipant u r t (consumed u xs P)"
  by (induction u xs P rule: consumed.induct) simp_all

lemma lastProducer_snoc:
  "lastProducer k (xs @ [(r, t)]) = (if r_kind r = k then Some (r_producerId r) else lastProducer k xs)"
  by (simp add: lastProducer_def Let_def)

subsection \<open>The pending producers\<close>

lemma nodrain_setTask: "nodrain s \<Longrightarrow> \<not> draining t \<Longrightarrow> nodrain (setTask i t s)"
  using set_update_subset_insert [of "tasks s" i t] by (auto simp: nodrain_def)

lemma nodrain_spawn: "nodrain s \<Longrightarrow> \<not> draining t \<Longrightarrow> nodrain (spawn t s)"
  by (auto simp: nodrain_def)

lemma nodrain_emit: "emit m s = Some s' \<Longrightarrow> nodrain s' = nodrain s"
  by (auto simp: nodrain_def dest: emit_fields)

lemma nodrain_consumeStream: "consumeStream p u s = Some s' \<Longrightarrow> nodrain s \<Longrightarrow> nodrain s'"
  by (erule consumeStream_Some) (simp add: nodrain_emit nodrain_spawn)

lemma pending_consumeStream:
  "consumeStream p u s = Some s' \<Longrightarrow> pendingProducersRef s' = pendingProducersRef s"
  by (erule consumeStream_Some) (auto dest: emit_fields)

lemma pending_awaitAndConsume:
  "pendingProducersRef (case awaitAndConsume i uid a c s of Inl s' \<Rightarrow> s' | Inr s' \<Rightarrow> s') =
     pendingProducersRef s"
  by (auto simp: awaitAndConsume_def split: if_splits option.splits dest: pending_consumeStream)

lemma pending_handleNewProducer:
  "pendingProducersRef (case handleNewProducer i uid a c s of Inl s' \<Rightarrow> s' | Inr s' \<Rightarrow> s') =
     pendingProducersRef s"
  by (auto simp: handleNewProducer_def Let_def pending_awaitAndConsume split: if_splits option.splits
      dest: emit_fields)

lemma pending_drain:
  "pendingProducersRef (drain i uid todo s) = [] \<or>
   pendingProducersRef (drain i uid todo s) = pendingProducersRef s"
proof (induction todo arbitrary: s)
  case Nil
  show ?case by simp
next
  case (Cons a rest)
  show ?case
  proof (cases "handleNewProducer i uid a (Drain rest) s")
    case (Inl s')
    with pending_handleNewProducer [of i uid a "Drain rest" s] show ?thesis by simp
  next
    case (Inr s')
    with pending_handleNewProducer [of i uid a "Drain rest" s] Cons.IH [of s'] show ?thesis by auto
  qed
qed

lemma pending_continue:
  "pendingProducersRef (continue i uid c s) = [] \<or>
   pendingProducersRef (continue i uid c s) = pendingProducersRef s"
  using pending_drain by (cases c) (auto simp: continue_def)

lemma pending_resumeHandler_await:
  "pendingProducersRef (resumeHandler i uid c (awaitAndConsume i uid a c' s)) = [] \<or>
   pendingProducersRef (resumeHandler i uid c (awaitAndConsume i uid a c' s)) = pendingProducersRef s"
proof (cases "awaitAndConsume i uid a c' s")
  case (Inl s')
  with pending_awaitAndConsume [of i uid a c' s] show ?thesis by (simp add: resumeHandler_def)
next
  case (Inr s')
  with pending_awaitAndConsume [of i uid a c' s] pending_continue [of i uid c s'] show ?thesis
    by (auto simp: resumeHandler_def)
qed

lemma pending_resumeHandler_handle:
  "pendingProducersRef (resumeHandler i uid c (handleNewProducer i uid a c' s)) = [] \<or>
   pendingProducersRef (resumeHandler i uid c (handleNewProducer i uid a c' s)) = pendingProducersRef s"
proof (cases "handleNewProducer i uid a c' s")
  case (Inl s')
  with pending_handleNewProducer [of i uid a c' s] show ?thesis by (simp add: resumeHandler_def)
next
  case (Inr s')
  with pending_handleNewProducer [of i uid a c' s] pending_continue [of i uid c s'] show ?thesis
    by (auto simp: resumeHandler_def)
qed

lemma pending_afterProduce:
  "pendingProducersRef (afterProduce i uid s) = [] \<or>
   pendingProducersRef (afterProduce i uid s) = pendingProducersRef s"
proof (cases "emit RefreshProducers s")
  case None
  then show ?thesis by (simp add: afterProduce_def)
next
  case (Some s1)
  with emit_fields [OF Some] pending_drain [of i uid "pendingProducersRef s1" s1] show ?thesis
    by (auto simp: afterProduce_def)
qed

lemma pending_produceAudio:
  "pendingProducersRef (produceAudio i uid b s) = [] \<or>
   pendingProducersRef (produceAudio i uid b s) = pendingProducersRef s"
  using pending_afterProduce [of i uid s] by (auto simp: produceAudio_def split: option.splits)

lemma pending_resume:
  "pendingProducersRef (resume i r s) = [] \<or> pendingProducersRef (resume i r s) = pendingProducersRef s"
proof (cases "i < length (tasks s)")
  case False
  then show ?thesis by (simp add: resume_def)
next
  case True
  show ?thesis
  proof (cases "tasks s ! i")
    case (T_getUserMedia uid ci)
    with True show ?thesis
      by (cases r; cases ci) (auto simp: resume_def startBroadcast_media_def Let_def)
  next
    case T_fetch
    with True show ?thesis by (cases r) (auto simp: resume_def connect_done_def)
  next
    case (T_load d uid)
    with True show ?thesis
      by (cases r) (auto simp: resume_def load_done_def Let_def split: option.splits dest: emit_fields)
  next
    case (T_createProducerTransport uid)
    let ?s1 = "\<lambda>tid. s\<lparr>transports := transports s @ [\<lparr>t_id = tid, t_dir = Send, t_closed = False\<rparr>],
                           producerTransportRef := Some (length (transports s))\<rparr>"
    from True T_createProducerTransport show ?thesis
      using pending_produceAudio [of i uid _ "?s1 _"]
      by (cases r) (auto simp: resume_def createProducerTransport_ack_def Let_def split: option.splits)
  next
    case (T_produceVideo uid b k)
    with True show ?thesis
      using pending_produceAudio [of i uid b "s\<lparr>producersRef := (producersRef s)(''video'' \<mapsto> \<lparr>pr_id = _, pr_transport = k\<rparr>)\<rparr>"]
      by (cases r) (auto simp: resume_def produceVideo_done_def)
  next
    case (T_produceAudio uid k)
    with True show ?thesis
      using pending_afterProduce [of i uid "s\<lparr>producersRef := (producersRef s)(''audio'' \<mapsto> \<lparr>pr_id = _, pr_transport = k\<rparr>)\<rparr>"]
      by (cases r) (auto simp: resume_def produceAudio_done_def)
  next
    case (T_createConsumerTransport uid a c)
    with True show ?thesis
      using pending_resumeHandler_await [of i uid c a c
          "s\<lparr>transports := transports s @ [\<lparr>t_id = _, t_dir = Recv, t_closed = False\<rparr>],
             consumerTransportRef := Some (length (transports s)),
             creatingConsumerTransportRef := False\<rparr>"]
      by (cases r) (auto simp: resume_def createConsumerTransport_ack_def Let_def split: option.splits)
  next
    case (T_poll uid a c)
    with True show ?thesis
      using pending_resumeHandler_await [of i uid c a c s]
      by (cases r) (auto simp: resume_def)
  next
    case (T_consumeAck p u)
    with True show ?thesis
      by (cases r) (auto simp: resume_def consume_ack_def split: option.splits)
  next
    case (T_consume k resp u)
    with True show ?thesis
      by (cases r) (auto simp: resume_def consume_done_def Let_def)
  qed (use True in \<open>auto simp: resume_def\<close>)
qed


lemma pending_socketEvent:
  "pendingProducersRef (socketEvent k ev s) = [] \<or>
   pendingProducersRef (socketEvent k ev s) = pendingProducersRef s \<or>
   (deviceRef s = None \<and> k < length (sockets s) \<and> s_open (sockets s ! k) \<and>
     (\<exists>a. ev = NewProducer a \<and> pendingProducersRef (socketEvent k ev s) = pendingProducersRef s @ [a]))"
proof (cases ev)
  case RouterCapabilities
  then show ?thesis by (simp add: socketEvent_def routerCapabilities_def)
next
  case (NewProducer a)
  with pending_resumeHandler_handle [of "length (tasks s)" "s_userId (sockets s ! k)" Live a Live "spawn T_done s"]
  show ?thesis by (auto simp: socketEvent_def newProducer_def Let_def)
next
  case (PeerDisconnected u)
  then show ?thesis by (simp add: socketEvent_def peerDisconnected_def)
qed

lemma pending_step:
  "pendingProducersRef (step s e) = [] \<or>
   pendingProducersRef (step s e) = pendingProducersRef s \<or>
   (deviceRef s = None \<and>
     (\<exists>k a. e = SocketEvent k (NewProducer a) \<and> k < length (sockets s) \<and> s_open (sockets s ! k) \<and>
        pendingProducersRef (step s e) = pendingProducersRef s @ [a]))"
proof (cases e)
  case (SocketEvent k ev)
  with pending_socketEvent [of k ev s] show ?thesis by (auto simp: step_def)
next
  case (Resume i r)
  with pending_resume [of i r s] show ?thesis by (auto simp: step_def)
qed (auto simp: step_def disconnect_def stopBroadcast_def stopTracks_def Let_def split: option.splits)

lemma deviceRef_resume: "deviceRef (resume i r s) = deviceRef s"
proof (cases "i < length (tasks s)")
  case False
  then show ?thesis by (simp add: resume_def)
next
  case True
  show ?thesis
  proof (cases "tasks s ! i")
    case (T_getUserMedia uid ci)
    with True show ?thesis
      by (cases r; cases ci) (auto simp: resume_def startBroadcast_media_def Let_def)
  next
    case T_fetch
    with True show ?thesis by (cases r) (auto simp: resume_def connect_done_def)
  next
    case (T_load d uid)
    with True show ?thesis
      by (cases r) (auto simp: resume_def load_done_def Let_def split: option.splits dest: emit_fields)
  next
    case (T_createProducerTransport uid)
    with True show ?thesis
      by (cases r) (auto simp: resume_def createProducerTransport_ack_def Let_def split: option.splits)
  next
    case (T_produceVideo uid b k)
    with True show ?thesis by (cases r) (auto simp: resume_def produceVideo_done_def)
  next
    case (T_produceAudio uid k)
    with True show ?thesis by (cases r) (auto simp: resume_def produceAudio_done_def)
  next
    case (T_createConsumerTransport uid a c)
    with True show ?thesis
      by (cases r) (auto simp: resume_def createConsumerTransport_ack_def Let_def split: option.splits)
  next
    case (T_poll uid a c)
    with True show ?thesis by (cases r) (auto simp: resume_def)
  next
    case (T_consumeAck p u)
    with True show ?thesis
      by (cases r) (auto simp: resume_def consume_ack_def split: option.splits)
  next
    case (T_consume k resp u)
    with True show ?thesis by (cases r) (auto simp: resume_def consume_done_def Let_def)
  qed (use True in \<open>auto simp: resume_def\<close>)
qed

lemma deviceRef_step: "deviceRef s \<noteq> None \<Longrightarrow> deviceRef (step s e) \<noteq> None"
proof (cases e)
  case (SocketEvent k ev)
  assume "deviceRef s \<noteq> None"
  with SocketEvent show ?thesis
    by (cases ev) (auto simp: step_def socketEvent_def routerCapabilities_def newProducer_def
        peerDisconnected_def Let_def)
next
  case (Resume i r)
  assume "deviceRef s \<noteq> None"
  with Resume show ?thesis by (simp add: step_def deviceRef_resume)
qed (auto simp: step_def disconnect_def stopBroadcast_def stopTracks_def Let_def split: option.splits)

lemma nodrain_awaitAndConsume:
  "nodrain s \<Longrightarrow> nodrain (case awaitAndConsume i uid a Live s of Inl s' \<Rightarrow> s' | Inr s' \<Rightarrow> s')"
  by (auto simp: awaitAndConsume_def nodrain_setTask split: option.splits dest: nodrain_consumeStream)

lemma nodrain_creating [simp]: "nodrain (s\<lparr>creatingConsumerTransportRef := b\<rparr>) = nodrain s"
  by (simp add: nodrain_def)

lemma nodrain_handleNewProducer:
  "nodrain s \<Longrightarrow> nodrain (case handleNewProducer i uid a Live s of Inl s' \<Rightarrow> s' | Inr s' \<Rightarrow> s')"
  by (auto simp: handleNewProducer_def Let_def nodrain_setTask nodrain_awaitAndConsume nodrain_emit
      split: option.splits)

lemma nodrain_resumeHandler_await:
  "nodrain s \<Longrightarrow> nodrain (resumeHandler i uid Live (awaitAndConsume i uid a Live s))"
  using nodrain_awaitAndConsume [of s i uid a]
  by (cases "awaitAndConsume i uid a Live s") (auto simp: resumeHandler_def continue_def nodrain_setTask)

lemma nodrain_resumeHandler_handle:
  "nodrain s \<Longrightarrow> nodrain (resumeHandler i uid Live (handleNewProducer i uid a Live s))"
  using nodrain_handleNewProducer [of s i uid a]
  by (cases "handleNewProducer i uid a Live s") (auto simp: resumeHandler_def continue_def nodrain_setTask)

lemma nodrain_afterProduce:
  "nodrain s \<Longrightarrow> pendingProducersRef s = [] \<Longrightarrow> nodrain (afterProduce i uid s)"
  by (auto simp: afterProduce_def nodrain_setTask nodrain_emit split: option.splits dest: emit_fields)

lemma nodrain_produceAudio:
  "nodrain s \<Longrightarrow> pendingProducersRef s = [] \<Longrightarrow> nodrain (produceAudio i uid b s)"
  by (auto simp: produceAudio_def nodrain_setTask nodrain_afterProduce split: option.splits)

lemma nodrain_nth: "nodrain s \<Longrightarrow> i < length (tasks s) \<Longrightarrow> \<not> draining (tasks s ! i)"
  by (simp add: nodrain_def)

lemma not_draining_Live:
  "\<not> draining (T_poll uid a c) \<Longrightarrow> c = Live"
  "\<not> draining (T_createConsumerTransport uid a c) \<Longrightarrow> c = Live"
  by (cases c; simp)+

lemma nodrain_resume:
  assumes "nodrain s" and "pendingProducersRef s = []"
  shows "nodrain (resume i r s)"
proof (cases "i < length (tasks s)")
  case False
  with assms show ?thesis by (simp add: resume_def)
next
  case True
  note nd = nodrain_nth [OF assms(1) True]
  have upd: "\<And>f. nodrain (s\<lparr>tasks := f (tasks s)\<rparr>) = (\<forall>t \<in> set (f (tasks s)). \<not> draining t)"
    by (simp add: nodrain_def)
  show ?thesis
  proof (cases "tasks s ! i")
    case (T_getUserMedia uid ci)
    with True assms show ?thesis
      by (cases r; cases ci)
         (auto simp: resume_def startBroadcast_media_def Let_def nodrain_def
           dest!: set_update_subset_insert [THEN subsetD])
  next
    case T_fetch
    with True assms show ?thesis
      by (cases r) (auto simp: resume_def connect_done_def nodrain_def
           dest!: set_update_subset_insert [THEN subsetD])
  next
    case (T_load d uid)
    with True assms show ?thesis
      by (cases r) (auto simp: resume_def load_done_def Let_def nodrain_def split: option.splits
           dest!: set_update_subset_insert [THEN subsetD] dest: emit_fields)
  next
    case (T_createProducerTransport uid)
    have "nodrain (s\<lparr>transports := ts, producerTransportRef := p\<rparr>)" for ts p
      using assms by (simp add: nodrain_def)
    from this [THEN nodrain_produceAudio] this [THEN nodrain_setTask] True assms T_createProducerTransport
    show ?thesis
      by (cases r) (auto simp: resume_def createProducerTransport_ack_def Let_def nodrain_setTask
          split: option.splits)
  next
    case (T_produceVideo uid b k)
    have "nodrain (s\<lparr>producersRef := p\<rparr>)" for p
      using assms by (simp add: nodrain_def)
    from this [THEN nodrain_produceAudio] True assms T_produceVideo show ?thesis
      by (cases r) (auto simp: resume_def produceVideo_done_def nodrain_setTask)
  next
    case (T_produceAudio uid k)
    have "nodrain (s\<lparr>producersRef := p\<rparr>)" for p
      using assms by (simp add: nodrain_def)
    from this [THEN nodrain_afterProduce] True assms T_produceAudio show ?thesis
      by (cases r) (auto simp: resume_def produceAudio_done_def nodrain_setTask)
  next
    case (T_createConsumerTransport uid a c)
    with nd have c: "c = Live" by (simp add: not_draining_Live)
    have "nodrain (s\<lparr>transports := ts, consumerTransportRef := p, creatingConsumerTransportRef := False\<rparr>)" for ts p
      using assms by (simp add: nodrain_def)
    from this [THEN nodrain_resumeHandler_await] True assms T_createConsumerTransport c show ?thesis
      by (cases r) (auto simp: resume_def createConsumerTransport_ack_def Let_def nodrain_setTask
          split: option.splits)
  next
    case (T_poll uid a c)
    with nd have c: "c = Live" by (simp add: not_draining_Live)
    with True assms T_poll show ?thesis
      by (cases r) (auto simp: resume_def nodrain_resumeHandler_await)
  next
    case (T_consumeAck p u)
    with True assms show ?thesis
      by (cases r) (auto simp: resume_def consume_ack_def nodrain_setTask split: option.splits)
  next
    case (T_consume k resp u)
    have "nodrain (s\<lparr>consumersRef := c, participants := p\<rparr>)" for c p
      using assms by (simp add: nodrain_def)
    from this [THEN nodrain_setTask] True assms T_consume show ?thesis
      by (cases r) (auto simp: resume_def consume_done_def Let_def nodrain_setTask)
  qed (use True assms in \<open>auto simp: resume_def\<close>)
qed


lemma drained_step:
  assumes "drained s"
  shows "drained (step s e)"
proof -
  from assms have d: "deviceRef s \<noteq> None" and p: "pendingProducersRef s = []" and n: "nodrain s"
    by (simp_all add: drained_def)
  from pending_step [of s e] d p have p': "pendingProducersRef (step s e) = []" by auto
  have n': "nodrain (step s e)"
  proof (cases e)
    case (SocketEvent k ev)
    show ?thesis
    proof (cases ev)
      case RouterCapabilities
      with SocketEvent n show ?thesis
        by (auto simp: step_def socketEvent_def routerCapabilities_def nodrain_def)
    next
      case (NewProducer a)
      from n have "nodrain (spawn T_done s)" by (simp add: nodrain_spawn)
      from nodrain_resumeHandler_handle [OF this] NewProducer SocketEvent n d show ?thesis
        by (auto simp: step_def socketEvent_def newProducer_def Let_def)
    next
      case (PeerDisconnected u)
      with SocketEvent n show ?thesis
        by (auto simp: step_def socketEvent_def peerDisconnected_def nodrain_def)
    qed
  next
    case (Resume i r)
    with nodrain_resume [OF n p] show ?thesis by (simp add: step_def)
  qed (use n in \<open>auto simp: step_def nodrain_def disconnect_def stopBroadcast_def stopTracks_def
         Let_def split: option.splits\<close>)
  from deviceRef_step [OF d] p' n' show ?thesis by (simp add: drained_def)
qed

lemma drained_run: "drained s \<Longrightarrow> drained (run s es)"
  unfolding run_def by (induction es arbitrary: s) (simp_all add: drained_step)

lemma afterProduce_drained:
  "pendingProducersRef s = [] \<Longrightarrow>
     afterProduce i uid s =
       (case emit RefreshProducers s of None \<Rightarrow> setTask i T_hung s | Some s1 \<Rightarrow> setTask i T_done s1)"
  by (auto simp: afterProduce_def split: option.splits dest: emit_fields)

subsection \<open>The invariant of the guard\<close>

lemma tasks_ok_weaken: "tasks_ok {} cr tr dev ts \<Longrightarrow> tasks_ok X cr tr dev ts"
  unfolding tasks_ok_def by blast

lemma task_ok_cr_mono: "task_ok False tr dev t \<Longrightarrow> task_ok True tr dev t"
  by (cases t) auto

lemma task_ok_not_creating: "task_ok False tr dev t \<Longrightarrow> \<not> creating t"
  by (cases t) auto

lemma task_ok_created: "task_ok True None dev t \<Longrightarrow> \<not> creating t \<Longrightarrow> task_ok False (Some k) dev t"
  by (cases t) auto

lemma task_ok_dev_mono: "task_ok cr tr dev t \<Longrightarrow> task_ok cr tr (Some d) t"
  by (cases t) auto

lemma tasks_okI:
  assumes "\<And>j. j < length ts \<Longrightarrow> j \<notin> X \<Longrightarrow> task_ok cr tr dev (ts ! j)"
    and "\<And>j j'. j < length ts \<Longrightarrow> j' < length ts \<Longrightarrow> j \<notin> X \<Longrightarrow> j' \<notin> X \<Longrightarrow>
           creating (ts ! j) \<Longrightarrow> creating (ts ! j') \<Longrightarrow> j = j'"
  shows "tasks_ok X cr tr dev ts"
  unfolding tasks_ok_def using assms by blast

lemma tasks_ok_task:
  "tasks_ok X cr tr dev ts \<Longrightarrow> j < length ts \<Longrightarrow> j \<notin> X \<Longrightarrow> task_ok cr tr dev (ts ! j)"
  unfolding tasks_ok_def by blast

lemma tasks_ok_unique:
  "tasks_ok X cr tr dev ts \<Longrightarrow> j < length ts \<Longrightarrow> j' < length ts \<Longrightarrow> j \<notin> X \<Longrightarrow> j' \<notin> X \<Longrightarrow>
     creating (ts ! j) \<Longrightarrow> creating (ts ! j') \<Longrightarrow> j = j'"
  unfolding tasks_ok_def by blast

lemma tasks_ok_update:
  assumes "tasks_ok {i} cr tr dev ts" and "task_ok cr tr dev t" and "\<not> creating t"
  shows "tasks_ok {} cr tr dev (ts[i := t])"
proof (rule tasks_okI)
  fix j assume "j < length (ts[i := t])"
  with assms(2) tasks_ok_task [OF assms(1), of j] show "task_ok cr tr dev (ts[i := t] ! j)"
    by (cases "j = i") simp_all
next
  fix j j' assume *: "j < length (ts[i := t])" "j' < length (ts[i := t])"
    "creating (ts[i := t] ! j)" "creating (ts[i := t] ! j')"
  with assms(3) have "j \<noteq> i" "j' \<noteq> i" by auto
  with * tasks_ok_unique [OF assms(1), of j j'] show "j = j'" by simp
qed

lemma tasks_ok_update_first:
  assumes "tasks_ok {i} False None dev ts" and "dev \<noteq> None"
  shows "tasks_ok {} True None dev (ts[i := T_createConsumerTransport uid a c])"
proof (rule tasks_okI)
  fix j assume "j < length (ts[i := T_createConsumerTransport uid a c])"
  with assms(2) tasks_ok_task [OF assms(1), of j]
  show "task_ok True None dev (ts[i := T_createConsumerTransport uid a c] ! j)"
    by (cases "j = i") (simp_all add: task_ok_cr_mono)
next
  fix j j' assume *: "j < length (ts[i := T_createConsumerTransport uid a c])"
    "j' < length (ts[i := T_createConsumerTransport uid a c])"
    "creating (ts[i := T_createConsumerTransport uid a c] ! j)"
    "creating (ts[i := T_createConsumerTransport uid a c] ! j')"
  have nc: "\<not> creating (ts ! l)" if "l < length ts" "l \<noteq> i" for l
    using tasks_ok_task [OF assms(1), of l] that by (simp add: task_ok_not_creating)
  from * nc [of j] have "j = i" by (cases "j = i") simp_all
  moreover from * nc [of j'] have "j' = i" by (cases "j' = i") simp_all
  ultimately show "j = j'" by simp
qed

lemma tasks_ok_set_creating: "tasks_ok X False tr dev ts \<Longrightarrow> tasks_ok X True tr dev ts"
  unfolding tasks_ok_def using task_ok_cr_mono by blast

lemma tasks_ok_created:
  assumes "tasks_ok {} True None dev ts" and "i < length ts" and "creating (ts ! i)"
  shows "tasks_ok {i} False (Some k) dev ts"
proof (rule tasks_okI)
  fix j assume j: "j < length ts" "j \<notin> {i}"
  with tasks_ok_unique [OF assms(1), of j i] assms(2,3) have "\<not> creating (ts ! j)" by auto
  with tasks_ok_task [OF assms(1), of j] j show "task_ok False (Some k) dev (ts ! j)"
    by (simp add: task_ok_created)
next
  fix j j' assume "j < length ts" "j' < length ts" "creating (ts ! j)" "creating (ts ! j')"
  with tasks_ok_unique [OF assms(1), of j j'] show "j = j'" by simp
qed

lemma tasks_ok_device: "tasks_ok X cr tr dev ts \<Longrightarrow> tasks_ok X cr tr (Some d) ts"
  unfolding tasks_ok_def using task_ok_dev_mono by blast

lemma tasks_ok_append:
  assumes "tasks_ok X cr tr dev ts" and "task_ok cr tr dev t" and "\<not> creating t"
  shows "tasks_ok X cr tr dev (ts @ [t])"
proof (rule tasks_okI)
  fix j assume "j < length (ts @ [t])" "j \<notin> X"
  with assms(2) tasks_ok_task [OF assms(1), of j] show "task_ok cr tr dev ((ts @ [t]) ! j)"
    by (cases "j < length ts") (simp_all add: nth_append)
next
  fix j j' assume *: "j < length (ts @ [t])" "j' < length (ts @ [t])" "j \<notin> X" "j' \<notin> X"
    "creating ((ts @ [t]) ! j)" "creating ((ts @ [t]) ! j')"
  from * assms(3) have "j < length ts" by (cases "j < length ts") (simp_all add: nth_append)
  moreover from * assms(3) have "j' < length ts" by (cases "j' < length ts") (simp_all add: nth_append)
  ultimately show "j = j'" using * tasks_ok_unique [OF assms(1), of j j'] by (simp add: nth_append)
qed

lemma tasks_ok_running: "tasks_ok {} cr tr dev ts \<Longrightarrow> tasks_ok {length ts} cr tr dev (ts @ [t])"
proof (rule tasks_okI)
  fix j assume "tasks_ok {} cr tr dev ts" "j < length (ts @ [t])" "j \<notin> {length ts}"
  then show "task_ok cr tr dev ((ts @ [t]) ! j)"
    using tasks_ok_task [of "{}" cr tr dev ts j] by (simp add: nth_append)
next
  fix j j' assume "tasks_ok {} cr tr dev ts" "j < length (ts @ [t])" "j' < length (ts @ [t])"
    "j \<notin> {length ts}" "j' \<notin> {length ts}" "creating ((ts @ [t]) ! j)" "creating ((ts @ [t]) ! j')"
  then show "j = j'"
    using tasks_ok_unique [of "{}" cr tr dev ts j j'] by (simp add: nth_append)
qed

lemma tasks_ok_nth: "tasks_ok {} cr tr dev ts \<Longrightarrow> i < length ts \<Longrightarrow> task_ok cr tr dev (ts ! i)"
  by (simp add: tasks_ok_task)

lemma ginv_weaken: "ginv {} s \<Longrightarrow> ginv X s"
  by (simp add: ginv_def tasks_ok_weaken)

lemma cached_ok_eq:
  assumes "transports s' = transports s" "consumerTransportRef s' = consumerTransportRef s"
    "creatingConsumerTransportRef s' = creatingConsumerTransportRef s"
    "consumersRef s' = consumersRef s"
  shows "cached_ok s' = cached_ok s"
  using assms by (simp add: cached_ok_def)

lemma cached_ok_setTask [simp]: "cached_ok (setTask i t s) = cached_ok s"
  by (simp add: cached_ok_def)

lemma cached_ok_spawn [simp]: "cached_ok (spawn t s) = cached_ok s"
  by (simp add: cached_ok_def)

lemma cached_ok_pending [simp]: "cached_ok (s\<lparr>pendingProducersRef := p\<rparr>) = cached_ok s"
  by (simp add: cached_ok_def)

lemma cached_ok_creating:
  "consumerTransportRef s = None \<Longrightarrow> cached_ok (s\<lparr>creatingConsumerTransportRef := b\<rparr>) = cached_ok s"
  by (simp add: cached_ok_def)

lemma ginv_eq:
  assumes "transports s' = transports s" "consumerTransportRef s' = consumerTransportRef s"
    "creatingConsumerTransportRef s' = creatingConsumerTransportRef s"
    "consumersRef s' = consumersRef s" "deviceRef s' = deviceRef s" "tasks s' = tasks s"
  shows "ginv X s' = ginv X s"
  using assms cached_ok_eq [of s' s] by (simp add: ginv_def)

lemma ginv_setTask:
  "ginv {i} s \<Longrightarrow>
   task_ok (creatingConsumerTransportRef s) (consumerTransportRef s) (deviceRef s) t \<Longrightarrow>
   \<not> creating t \<Longrightarrow> ginv {} (setTask i t s)"
  by (simp add: ginv_def tasks_ok_update)

lemma ginv_spawn:
  "ginv X s \<Longrightarrow>
   task_ok (creatingConsumerTransportRef s) (consumerTransportRef s) (deviceRef s) t \<Longrightarrow>
   \<not> creating t \<Longrightarrow> ginv X (spawn t s)"
  by (simp add: ginv_def tasks_ok_append)

lemma ginv_emit:
  assumes "emit m s = Some s'"
  shows "ginv X s' = ginv X s"
  using emit_fields [OF assms] by (intro ginv_eq) simp_all

lemma ginv_consumeStream:
  assumes "consumeStream p u s = Some s'" and "ginv X s" and "consumerTransportRef s \<noteq> None"
  shows "ginv X s'"
proof -
  from assms(1) obtain s1 where e: "emit (Consume p) s = Some s1" and s': "s' = spawn (T_consumeAck p u) s1"
    by (rule consumeStream_Some)
  from ginv_emit [OF e] assms(2) have "ginv X s1" by simp
  moreover from emit_fields [OF e] assms(3) have "consumerTransportRef s1 \<noteq> None" by simp
  ultimately show ?thesis unfolding s' by (intro ginv_spawn) simp_all
qed

lemma ginv_awaitAndConsume:
  assumes "ginv {i} s" and "deviceRef s \<noteq> None"
    and "creatingConsumerTransportRef s \<or> consumerTransportRef s \<noteq> None"
  shows "case awaitAndConsume i uid a c s of Inl s' \<Rightarrow> ginv {} s' | Inr s' \<Rightarrow> ginv {i} s'"
proof (cases "creatingConsumerTransportRef s")
  case True
  with assms show ?thesis by (simp add: awaitAndConsume_def ginv_setTask)
next
  case False
  show ?thesis
  proof (cases "consumeStream (ann_producerId a) (ann_userId a) s")
    case None
    with False assms(1) show ?thesis by (simp add: awaitAndConsume_def ginv_setTask)
  next
    case (Some s')
    from ginv_consumeStream [OF Some assms(1)] False assms(3) have "ginv {i} s'" by simp
    with False Some show ?thesis by (simp add: awaitAndConsume_def)
  qed
qed

lemma ginv_start_creating:
  assumes "ginv X s" and "consumerTransportRef s = None"
  shows "ginv X (s\<lparr>creatingConsumerTransportRef := True\<rparr>)"
proof -
  from assms have "cached_ok (s\<lparr>creatingConsumerTransportRef := True\<rparr>)"
    by (simp add: ginv_def cached_ok_creating)
  moreover from assms
  have "tasks_ok X True (consumerTransportRef s) (deviceRef s) (tasks s)"
    by (cases "creatingConsumerTransportRef s") (simp_all add: ginv_def tasks_ok_set_creating)
  ultimately show ?thesis by (simp add: ginv_def)
qed

lemma ginv_first_creating:
  assumes "ginv {i} s" and "consumerTransportRef s = None" and "\<not> creatingConsumerTransportRef s"
    and "deviceRef s \<noteq> None" and "emit m (s\<lparr>creatingConsumerTransportRef := True\<rparr>) = Some s2"
  shows "ginv {} (setTask i (T_createConsumerTransport uid a c) s2)"
proof -
  note f = emit_fields [OF assms(5)]
  from f have "cached_ok s2 = cached_ok (s\<lparr>creatingConsumerTransportRef := True\<rparr>)"
    by (intro cached_ok_eq) simp_all
  with assms(1,2) have "cached_ok (setTask i (T_createConsumerTransport uid a c) s2)"
    by (simp add: ginv_def cached_ok_creating)
  moreover from assms(1-4) have "tasks_ok {} True None (deviceRef s) ((tasks s)[i := T_createConsumerTransport uid a c])"
    by (intro tasks_ok_update_first) (simp_all add: ginv_def)
  ultimately show ?thesis using f assms(2) by (simp add: ginv_def)
qed

lemma ginv_handleNewProducer:
  assumes "ginv {i} s" and "deviceRef s \<noteq> None"
  shows "case handleNewProducer i uid a c s of Inl s' \<Rightarrow> ginv {} s' | Inr s' \<Rightarrow> ginv {i} s'"
proof (cases "ann_userId a = uid")
  case True
  with assms show ?thesis by (simp add: handleNewProducer_def)
next
  case self: False
  show ?thesis
  proof (cases "consumerTransportRef s = None \<and> \<not> creatingConsumerTransportRef s")
    case False
    then have *: "creatingConsumerTransportRef s \<or> consumerTransportRef s \<noteq> None" by auto
    from False self have "handleNewProducer i uid a c s = awaitAndConsume i uid a c s"
      by (auto simp: handleNewProducer_def)
    with ginv_awaitAndConsume [OF assms *, of uid a c] show ?thesis by simp
  next
    case True
    let ?s1 = "s\<lparr>creatingConsumerTransportRef := True\<rparr>"
    from assms(1) True have g1: "ginv {i} ?s1" by (simp add: ginv_start_creating)
    show ?thesis
    proof (cases "emit (CreateTransport False True) ?s1")
      case None
      with self True ginv_setTask [OF g1, of T_rejected] show ?thesis
        by (simp add: handleNewProducer_def Let_def)
    next
      case (Some s2)
      from ginv_first_creating [OF assms(1) _ _ assms(2) Some, of uid a c] True
      have "ginv {} (setTask i (T_createConsumerTransport uid a c) s2)" by simp
      with self True Some show ?thesis
        by (simp add: handleNewProducer_def Let_def)
    qed
  qed
qed

lemma ginv_pending [simp]: "ginv X (s\<lparr>pendingProducersRef := p\<rparr>) = ginv X s"
  by (simp add: ginv_def)

lemma ginv_drain:
  "ginv {i} s \<Longrightarrow> deviceRef s \<noteq> None \<Longrightarrow> ginv {} (drain i uid todo s)"
proof (induction todo arbitrary: s)
  case Nil
  then show ?case by (simp add: ginv_setTask)
next
  case (Cons a rest)
  show ?case
  proof (cases "handleNewProducer i uid a (Drain rest) s")
    case (Inl s')
    with ginv_handleNewProducer [OF Cons.prems, of uid a "Drain rest"] show ?thesis by simp
  next
    case (Inr s')
    with ginv_handleNewProducer [OF Cons.prems, of uid a "Drain rest"]
    have "ginv {i} s'" by simp
    moreover from frame_handleNewProducer_Inr [OF Inr] Cons.prems have "deviceRef s' \<noteq> None"
      by (simp add: handler_frame_def)
    ultimately show ?thesis using Inr by (simp add: Cons.IH)
  qed
qed

lemma ginv_continue:
  "ginv {i} s \<Longrightarrow> deviceRef s \<noteq> None \<Longrightarrow> ginv {} (continue i uid c s)"
  by (cases c) (simp_all add: continue_def ginv_setTask ginv_drain)

lemma ginv_resumeHandler_await:
  assumes "ginv {i} s" and "deviceRef s \<noteq> None"
    and "creatingConsumerTransportRef s \<or> consumerTransportRef s \<noteq> None"
  shows "ginv {} (resumeHandler i uid c (awaitAndConsume i uid a c' s))"
proof (cases "awaitAndConsume i uid a c' s")
  case (Inl s')
  with ginv_awaitAndConsume [OF assms, of uid a c'] show ?thesis by (simp add: resumeHandler_def)
next
  case (Inr s')
  with ginv_awaitAndConsume [OF assms, of uid a c'] have "ginv {i} s'" by simp
  moreover from frame_awaitAndConsume_Inr [OF Inr] assms(2) have "deviceRef s' \<noteq> None"
    by (simp add: handler_frame_def)
  ultimately show ?thesis using Inr by (simp add: resumeHandler_def ginv_continue)
qed

lemma ginv_resumeHandler_handle:
  assumes "ginv {i} s" and "deviceRef s \<noteq> None"
  shows "ginv {} (resumeHandler i uid c (handleNewProducer i uid a c' s))"
proof (cases "handleNewProducer i uid a c' s")
  case (Inl s')
  with ginv_handleNewProducer [OF assms, of uid a c'] show ?thesis by (simp add: resumeHandler_def)
next
  case (Inr s')
  with ginv_handleNewProducer [OF assms, of uid a c'] have "ginv {i} s'" by simp
  moreover from frame_handleNewProducer_Inr [OF Inr] assms(2) have "deviceRef s' \<noteq> None"
    by (simp add: handler_frame_def)
  ultimately show ?thesis using Inr by (simp add: resumeHandler_def ginv_continue)
qed

lemma ginv_afterProduce:
  assumes "ginv {i} s" and "deviceRef s \<noteq> None"
  shows "ginv {} (afterProduce i uid s)"
proof (cases "emit RefreshProducers s")
  case None
  with assms show ?thesis by (simp add: afterProduce_def ginv_setTask)
next
  case (Some s1)
  from assms emit_fields [OF Some] ginv_emit [OF Some, of "{i}"]
  have "ginv {i} s1" "deviceRef s1 \<noteq> None" by simp_all
  with Some show ?thesis
    by (simp add: afterProduce_def ginv_setTask ginv_drain)
qed

lemma ginv_produceAudio:
  "ginv {i} s \<Longrightarrow> deviceRef s \<noteq> None \<Longrightarrow> ginv {} (produceAudio i uid b s)"
  by (cases "producerTransportRef s") (simp_all add: produceAudio_def ginv_setTask ginv_afterProduce)


lemma cached_okI:
  assumes "\<And>k. k < length (transports s) \<Longrightarrow> t_dir (transports s ! k) = Recv \<Longrightarrow>
              consumerTransportRef s = Some k"
    and "\<And>k. consumerTransportRef s = Some k \<Longrightarrow>
              k < length (transports s) \<and> t_dir (transports s ! k) = Recv \<and> \<not> creatingConsumerTransportRef s"
    and "\<And>c. c \<in> ran (consumersRef s) \<Longrightarrow> consumerTransportRef s = Some (c_transport c)"
  shows "cached_ok s"
  unfolding cached_ok_def using assms by blast

lemma cached_ok_recv:
  "cached_ok s \<Longrightarrow> k < length (transports s) \<Longrightarrow> t_dir (transports s ! k) = Recv \<Longrightarrow>
     consumerTransportRef s = Some k"
  unfolding cached_ok_def by blast

lemma cached_ok_ref:
  "cached_ok s \<Longrightarrow> consumerTransportRef s = Some k \<Longrightarrow>
     k < length (transports s) \<and> t_dir (transports s ! k) = Recv \<and> \<not> creatingConsumerTransportRef s"
  unfolding cached_ok_def by blast

lemma cached_ok_consumer:
  "cached_ok s \<Longrightarrow> c \<in> ran (consumersRef s) \<Longrightarrow> consumerTransportRef s = Some (c_transport c)"
  unfolding cached_ok_def by blast

lemma cached_ok_created:
  assumes "cached_ok s" and "consumerTransportRef s = None"
  shows "cached_ok (s\<lparr>transports := transports s @ [\<lparr>t_id = tid, t_dir = Recv, t_closed = False\<rparr>],
                      consumerTransportRef := Some (length (transports s)),
                      creatingConsumerTransportRef := False\<rparr>)"
proof -
  define s' where "s' = s\<lparr>transports := transports s @ [\<lparr>t_id = tid, t_dir = Recv, t_closed = False\<rparr>],
                      consumerTransportRef := Some (length (transports s)),
                      creatingConsumerTransportRef := False\<rparr>"
  have f: "transports s' = transports s @ [\<lparr>t_id = tid, t_dir = Recv, t_closed = False\<rparr>]"
    "consumerTransportRef s' = Some (length (transports s))"
    "creatingConsumerTransportRef s' = False" "consumersRef s' = consumersRef s"
    by (simp_all add: s'_def)
  have "cached_ok s'"
  proof (rule cached_okI)
    fix k assume k: "k < length (transports s')" "t_dir (transports s' ! k) = Recv"
    show "consumerTransportRef s' = Some k"
    proof (cases "k < length (transports s)")
      case True
      with k f have "t_dir (transports s ! k) = Recv" by (simp add: nth_append)
      from cached_ok_recv [OF assms(1) True this] assms(2) show ?thesis by simp
    next
      case False
      with k f show ?thesis by simp
    qed
  next
    fix k assume "consumerTransportRef s' = Some k"
    with f show "k < length (transports s') \<and> t_dir (transports s' ! k) = Recv \<and>
        \<not> creatingConsumerTransportRef s'"
      by simp
  next
    fix c assume "c \<in> ran (consumersRef s')"
    with f cached_ok_consumer [OF assms(1), of c] assms(2)
    show "consumerTransportRef s' = Some (c_transport c)" by simp
  qed
  then show ?thesis by (simp add: s'_def)
qed

lemma cached_ok_sent:
  assumes "cached_ok s"
  shows "cached_ok (s\<lparr>transports := transports s @ [\<lparr>t_id = tid, t_dir = Send, t_closed = False\<rparr>],
                      producerTransportRef := p\<rparr>)"
proof -
  define s' where "s' = s\<lparr>transports := transports s @ [\<lparr>t_id = tid, t_dir = Send, t_closed = False\<rparr>],
                      producerTransportRef := p\<rparr>"
  have f: "transports s' = transports s @ [\<lparr>t_id = tid, t_dir = Send, t_closed = False\<rparr>]"
    "consumerTransportRef s' = consumerTransportRef s"
    "creatingConsumerTransportRef s' = creatingConsumerTransportRef s" "consumersRef s' = consumersRef s"
    by (simp_all add: s'_def)
  have "cached_ok s'"
  proof (rule cached_okI)
    fix k assume k: "k < length (transports s')" "t_dir (transports s' ! k) = Recv"
    show "consumerTransportRef s' = Some k"
    proof (cases "k < length (transports s)")
      case True
      with k f have "t_dir (transports s ! k) = Recv" by (simp add: nth_append)
      from cached_ok_recv [OF assms(1) True this] f show ?thesis by simp
    next
      case False
      with k f show ?thesis by (simp add: nth_append)
    qed
  next
    fix k assume "consumerTransportRef s' = Some k"
    with f have "consumerTransportRef s = Some k" by simp
    from cached_ok_ref [OF assms this] f
    show "k < length (transports s') \<and> t_dir (transports s' ! k) = Recv \<and>
        \<not> creatingConsumerTransportRef s'"
      by (simp add: nth_append)
  next
    fix c assume "c \<in> ran (consumersRef s')"
    with f cached_ok_consumer [OF assms, of c]
    show "consumerTransportRef s' = Some (c_transport c)" by simp
  qed
  then show ?thesis by (simp add: s'_def)
qed


lemma ginv_running: "ginv {} s \<Longrightarrow> ginv {length (tasks s)} (spawn t s)"
  by (simp add: ginv_def tasks_ok_running)

lemma ginv_task:
  "ginv {} s \<Longrightarrow> i < length (tasks s) \<Longrightarrow>
     task_ok (creatingConsumerTransportRef s) (consumerTransportRef s) (deviceRef s) (tasks s ! i)"
  by (simp add: ginv_def tasks_ok_nth)

lemma ginv_startBroadcast_media:
  assumes "ginv {i} s"
  shows "ginv {} (startBroadcast_media i uid ci stream s)"
proof -
  let ?s1 = "setTask i T_done (s\<lparr>localStreamRef := Some stream, localVideoSrc := True\<rparr>)"
  have "ginv {i} (s\<lparr>localStreamRef := Some stream, localVideoSrc := True\<rparr>) = ginv {i} s"
    by (rule ginv_eq) simp_all
  with assms have g: "ginv {} ?s1" by (simp add: ginv_setTask)
  have "ginv {} (?s1\<lparr>sockets := ss, socketRef := r, isBroadcasting := b\<rparr>) = ginv {} ?s1" for ss r b
    by (rule ginv_eq) simp_all
  with g show ?thesis
    by (cases ci) (simp_all add: startBroadcast_media_def Let_def)
qed

lemma ginv_load_done:
  assumes "ginv {i} s" and "deviceRef s \<noteq> None"
  shows "ginv {} (load_done i d uid s)"
proof -
  let ?s1 = "s\<lparr>devices := (devices s)[d := True]\<rparr>"
  have "ginv {i} ?s1 = ginv {i} s" by (rule ginv_eq) simp_all
  with assms have g: "ginv {i} ?s1" by simp
  show ?thesis
  proof (cases "emit (CreateTransport True False) ?s1")
    case None
    with g show ?thesis by (simp add: load_done_def Let_def ginv_setTask)
  next
    case (Some s2)
    from ginv_emit [OF Some, of "{i}"] g emit_fields [OF Some] assms(2)
    have "ginv {i} s2" "deviceRef s2 \<noteq> None" by simp_all
    with Some show ?thesis by (simp add: load_done_def Let_def ginv_setTask)
  qed
qed

lemma ginv_createProducerTransport_ack:
  assumes "ginv {} s"
  shows "ginv {} (createProducerTransport_ack i uid r s)"
proof (cases r)
  case AckErr
  with ginv_weaken [OF assms, of "{i}"] show ?thesis
    by (simp add: createProducerTransport_ack_def ginv_setTask)
next
  case (AckTransport tid)
  show ?thesis
  proof (cases "deviceRef s")
    case None
    with AckTransport ginv_weaken [OF assms, of "{i}"] show ?thesis
      by (simp add: createProducerTransport_ack_def ginv_setTask)
  next
    case (Some d)
    note dev = Some
    let ?s1 = "s\<lparr>transports := transports s @ [\<lparr>t_id = tid, t_dir = Send, t_closed = False\<rparr>],
                   producerTransportRef := Some (length (transports s))\<rparr>"
    from ginv_weaken [OF assms, of "{i}"] have g: "ginv {i} ?s1"
      by (simp add: ginv_def cached_ok_sent)
    have d: "deviceRef ?s1 \<noteq> None" using dev by simp
    show ?thesis
    proof (cases "localStreamRef s")
      case None
      with AckTransport dev g show ?thesis
        by (simp add: createProducerTransport_ack_def Let_def ginv_setTask)
    next
      case (Some trs)
      from g d have "ginv {} (setTask i (T_produceVideo uid b (length (transports s))) ?s1)" for b
        by (intro ginv_setTask) simp_all
      moreover from g d have "ginv {} (produceAudio i uid b ?s1)" for b
        by (rule ginv_produceAudio)
      ultimately show ?thesis using AckTransport dev Some
        by (simp add: createProducerTransport_ack_def Let_def)
    qed
  qed
qed (use assms in \<open>simp_all add: createProducerTransport_ack_def\<close>)

lemma ginv_produceVideo_done:
  assumes "ginv {} s" and "deviceRef s \<noteq> None"
  shows "ginv {} (produceVideo_done i uid b k r s)"
proof (cases r)
  case ProduceErr
  with ginv_weaken [OF assms(1), of "{i}"] show ?thesis
    by (simp add: produceVideo_done_def ginv_setTask)
next
  case (ProduceOk pid)
  let ?s1 = "s\<lparr>producersRef := (producersRef s)(''video'' \<mapsto> \<lparr>pr_id = pid, pr_transport = k\<rparr>)\<rparr>"
  have "ginv {i} ?s1 = ginv {i} s" by (rule ginv_eq) simp_all
  with ginv_weaken [OF assms(1), of "{i}"] have "ginv {i} ?s1" by simp
  moreover from assms(2) have "deviceRef ?s1 \<noteq> None" by simp
  ultimately have "ginv {} (produceAudio i uid b ?s1)" by (rule ginv_produceAudio)
  with ProduceOk show ?thesis by (simp add: produceVideo_done_def)
qed (use assms in \<open>simp_all add: produceVideo_done_def\<close>)

lemma ginv_produceAudio_done:
  assumes "ginv {} s" and "deviceRef s \<noteq> None"
  shows "ginv {} (produceAudio_done i uid k r s)"
proof (cases r)
  case ProduceErr
  with ginv_weaken [OF assms(1), of "{i}"] show ?thesis
    by (simp add: produceAudio_done_def ginv_setTask)
next
  case (ProduceOk pid)
  let ?s1 = "s\<lparr>producersRef := (producersRef s)(''audio'' \<mapsto> \<lparr>pr_id = pid, pr_transport = k\<rparr>)\<rparr>"
  have "ginv {i} ?s1 = ginv {i} s" by (rule ginv_eq) simp_all
  with ginv_weaken [OF assms(1), of "{i}"] have "ginv {i} ?s1" by simp
  moreover from assms(2) have "deviceRef ?s1 \<noteq> None" by simp
  ultimately have "ginv {} (afterProduce i uid ?s1)" by (rule ginv_afterProduce)
  with ProduceOk show ?thesis by (simp add: produceAudio_done_def)
qed (use assms in \<open>simp_all add: produceAudio_done_def\<close>)

lemma ginv_createConsumerTransport_ack:
  assumes "ginv {} s" and "i < length (tasks s)" and "tasks s ! i = T_createConsumerTransport uid a c"
  shows "ginv {} (createConsumerTransport_ack i uid a c r s)"
proof -
  from ginv_task [OF assms(1,2)] assms(3)
  have ok: "creatingConsumerTransportRef s" "consumerTransportRef s = None" "deviceRef s \<noteq> None"
    by simp_all
  show ?thesis
  proof (cases r)
    case AckErr
    with ginv_weaken [OF assms(1), of "{i}"] show ?thesis
      by (simp add: createConsumerTransport_ack_def ginv_setTask)
  next
    case (AckTransport tid)
    let ?s2 = "s\<lparr>transports := transports s @ [\<lparr>t_id = tid, t_dir = Recv, t_closed = False\<rparr>],
                   consumerTransportRef := Some (length (transports s)),
                   creatingConsumerTransportRef := False\<rparr>"
    from assms(1) ok have c: "cached_ok ?s2"
      by (intro cached_ok_created) (simp_all add: ginv_def)
    from assms ok have "tasks_ok {i} False (Some (length (transports s))) (deviceRef s) (tasks s)"
      by (intro tasks_ok_created) (simp_all add: ginv_def)
    with c have g: "ginv {i} ?s2" by (simp add: ginv_def)
    from ok have "deviceRef ?s2 \<noteq> None"
      "creatingConsumerTransportRef ?s2 \<or> consumerTransportRef ?s2 \<noteq> None" by simp_all
    from ginv_resumeHandler_await [OF g this, of uid c a c] ok AckTransport show ?thesis
      by (auto simp: createConsumerTransport_ack_def Let_def)
  qed (use assms in \<open>simp_all add: createConsumerTransport_ack_def\<close>)
qed

lemma ginv_consume_ack:
  assumes "ginv {} s"
  shows "ginv {} (consume_ack i u resp s)"
  using ginv_weaken [OF assms, of "{i}"]
  by (cases "consumerTransportRef s") (simp_all add: consume_ack_def ginv_setTask)

lemma ran_upd_cases: "c \<in> ran (m(x \<mapsto> v)) \<Longrightarrow> c = v \<or> c \<in> ran m"
  by (auto simp: ran_def split: if_splits)

lemma ginv_consume_done:
  assumes "ginv {} s" and "consumerTransportRef s = Some k"
  shows "ginv {} (consume_done i k resp u s)"
proof -
  define c0 where "c0 = \<lparr>c_id = r_id resp, c_producerId = r_producerId resp, c_kind = r_kind resp,
               c_transport = k, c_track = \<lparr>tr_obj = i, tr_kind = r_kind resp\<rparr>\<rparr>"
  define s' where "s' = s\<lparr>consumersRef := (consumersRef s)(c_id c0 \<mapsto> c0),
      participants := updateParticipant u resp \<lparr>tr_obj = i, tr_kind = r_kind resp\<rparr> (participants s)\<rparr>"
  have f: "transports s' = transports s" "consumerTransportRef s' = consumerTransportRef s"
    "creatingConsumerTransportRef s' = creatingConsumerTransportRef s"
    "consumersRef s' = (consumersRef s)(c_id c0 \<mapsto> c0)" "deviceRef s' = deviceRef s" "tasks s' = tasks s"
    by (simp_all add: s'_def)
  from assms(1) have co: "cached_ok s" by (simp add: ginv_def)
  have "cached_ok s'"
  proof (rule cached_okI)
    fix j assume "j < length (transports s')" "t_dir (transports s' ! j) = Recv"
    with f cached_ok_recv [OF co, of j] show "consumerTransportRef s' = Some j" by simp
  next
    fix j assume "consumerTransportRef s' = Some j"
    with f cached_ok_ref [OF co, of j]
    show "j < length (transports s') \<and> t_dir (transports s' ! j) = Recv \<and> \<not> creatingConsumerTransportRef s'"
      by simp
  next
    fix c assume "c \<in> ran (consumersRef s')"
    with f ran_upd_cases [of c "consumersRef s" "c_id c0" c0] have "c = c0 \<or> c \<in> ran (consumersRef s)"
      by simp
    with cached_ok_consumer [OF co, of c] assms(2) f show "consumerTransportRef s' = Some (c_transport c)"
      by (auto simp: c0_def)
  qed
  with assms(1) f have "ginv {i} s'" by (simp add: ginv_def tasks_ok_weaken)
  then have "ginv {} (setTask i T_done s')" by (simp add: ginv_setTask)
  then show ?thesis by (simp add: consume_done_def Let_def s'_def c0_def)
qed


lemma ginv_resume:
  assumes "ginv {} s"
  shows "ginv {} (resume i r s)"
proof (cases "i < length (tasks s)")
  case False
  with assms show ?thesis by (simp add: resume_def)
next
  case True
  note ok = ginv_task [OF assms True]
  note gi = ginv_weaken [OF assms, of "{i}"]
  show ?thesis
  proof (cases "tasks s ! i")
    case T_fetch
    have "ginv {i} (connect_done d s) = ginv {i} s" for d
      by (rule ginv_eq) (simp_all add: connect_done_def)
    with gi have "ginv {} (setTask i T_done (connect_done d s))" for d
      by (simp add: ginv_setTask)
    with True T_fetch assms gi show ?thesis by (cases r) (simp_all add: resume_def ginv_setTask)
  next
    case (T_getUserMedia uid ci)
    with True assms gi show ?thesis
      by (cases r) (simp_all add: resume_def ginv_startBroadcast_media ginv_setTask)
  next
    case (T_load d uid)
    with ok have "deviceRef s \<noteq> None" by simp
    with True T_load assms gi show ?thesis
      by (cases r) (simp_all add: resume_def ginv_load_done ginv_setTask)
  next
    case (T_createProducerTransport uid)
    with True assms show ?thesis by (simp add: resume_def ginv_createProducerTransport_ack)
  next
    case (T_produceVideo uid b k)
    with ok have "deviceRef s \<noteq> None" by simp
    with True T_produceVideo assms show ?thesis by (simp add: resume_def ginv_produceVideo_done)
  next
    case (T_produceAudio uid k)
    with ok have "deviceRef s \<noteq> None" by simp
    with True T_produceAudio assms show ?thesis by (simp add: resume_def ginv_produceAudio_done)
  next
    case (T_createConsumerTransport uid a c)
    with True assms show ?thesis by (simp add: resume_def ginv_createConsumerTransport_ack)
  next
    case (T_poll uid a c)
    with ok have "deviceRef s \<noteq> None"
      "creatingConsumerTransportRef s \<or> consumerTransportRef s \<noteq> None" by auto
    from ginv_resumeHandler_await [OF gi this, of uid c a c] True T_poll assms show ?thesis
      by (cases r) (simp_all add: resume_def)
  next
    case (T_consumeAck p u)
    with True assms gi show ?thesis
      by (cases r) (simp_all add: resume_def ginv_consume_ack ginv_setTask)
  next
    case (T_consume k resp u)
    with ok have "consumerTransportRef s = Some k" by simp
    with True T_consume assms gi show ?thesis
      by (cases r) (simp_all add: resume_def ginv_consume_done ginv_setTask)
  qed (use True assms in \<open>simp_all add: resume_def\<close>)
qed

lemma ginv_routerCapabilities:
  assumes "ginv {} s"
  shows "ginv {} (routerCapabilities uid s)"
proof -
  let ?s1 = "s\<lparr>devices := devices s @ [False], deviceRef := Some (length (devices s))\<rparr>"
  have "cached_ok ?s1 = cached_ok s" by (rule cached_ok_eq) simp_all
  moreover from assms
  have "tasks_ok {} (creatingConsumerTransportRef s) (consumerTransportRef s)
          (Some (length (devices s))) (tasks s)"
    by (simp add: ginv_def tasks_ok_device [of "{}" _ _ "deviceRef s"])
  ultimately have "ginv {} ?s1" using assms by (simp add: ginv_def)
  then show ?thesis unfolding routerCapabilities_def by (rule ginv_spawn) simp_all
qed

lemma ginv_newProducer:
  assumes "ginv {} s"
  shows "ginv {} (newProducer uid a s)"
proof (cases "deviceRef s")
  case None
  with assms show ?thesis by (simp add: newProducer_def)
next
  case (Some d)
  from ginv_running [OF assms, of T_done] have "ginv {length (tasks s)} (spawn T_done s)" .
  moreover from Some have "deviceRef (spawn T_done s) \<noteq> None" by simp
  ultimately have "ginv {} (resumeHandler (length (tasks s)) uid Live
      (handleNewProducer (length (tasks s)) uid a Live (spawn T_done s)))"
    by (rule ginv_resumeHandler_handle)
  with Some show ?thesis by (simp add: newProducer_def Let_def)
qed

lemma ginv_socketEvent: "ginv {} s \<Longrightarrow> ginv {} (socketEvent k ev s)"
proof (cases ev)
  case (PeerDisconnected u)
  assume g: "ginv {} s"
  have "ginv {} (peerDisconnected u s) = ginv {} s"
    by (rule ginv_eq) (simp_all add: peerDisconnected_def)
  with g PeerDisconnected show ?thesis by (simp add: socketEvent_def)
qed (simp_all add: socketEvent_def ginv_routerCapabilities ginv_newProducer)

lemma closeTransport_length [simp]: "length (closeTransport r ts) = length ts"
  by (cases r) (simp_all add: closeTransport_def)

lemma closeTransport_dir [simp]:
  "k < length ts \<Longrightarrow> t_dir (closeTransport r ts ! k) = t_dir (ts ! k)"
proof (cases r)
  case None
  then show ?thesis by (simp add: closeTransport_def)
next
  case (Some j)
  assume "k < length ts"
  with Some show ?thesis by (cases "k = j") (simp_all add: closeTransport_def)
qed

lemma stopTracks_fields [simp]:
  "transports (stopTracks s) = transports s" "consumerTransportRef (stopTracks s) = consumerTransportRef s"
  "creatingConsumerTransportRef (stopTracks s) = creatingConsumerTransportRef s"
  "consumersRef (stopTracks s) = consumersRef s" "deviceRef (stopTracks s) = deviceRef s"
  "tasks (stopTracks s) = tasks s" "producerTransportRef (stopTracks s) = producerTransportRef s"
  "socketRef (stopTracks s) = socketRef s" "sockets (stopTracks s) = sockets s"
  by (cases "localStreamRef s"; simp add: stopTracks_def)+

lemma ginv_disconnect: "ginv X (disconnect s) = ginv X s"
  by (rule ginv_eq) (simp_all add: disconnect_def Let_def)

lemma ginv_stopBroadcast:
  assumes "ginv X s"
  shows "ginv X (stopBroadcast s)"
proof -
  define s' where "s' = stopBroadcast s"
  have f: "transports s' = closeTransport (consumerTransportRef s) (closeTransport (producerTransportRef s) (transports s))"
    "consumerTransportRef s' = consumerTransportRef s"
    "creatingConsumerTransportRef s' = creatingConsumerTransportRef s"
    "consumersRef s' = Map.empty" "deviceRef s' = deviceRef s" "tasks s' = tasks s"
    by (simp_all add: s'_def stopBroadcast_def Let_def)
  from assms have co: "cached_ok s" by (simp add: ginv_def)
  have "cached_ok s'"
  proof (rule cached_okI)
    fix k assume "k < length (transports s')" "t_dir (transports s' ! k) = Recv"
    with f cached_ok_recv [OF co, of k] show "consumerTransportRef s' = Some k" by simp
  next
    fix k assume "consumerTransportRef s' = Some k"
    with f cached_ok_ref [OF co, of k]
    show "k < length (transports s') \<and> t_dir (transports s' ! k) = Recv \<and> \<not> creatingConsumerTransportRef s'"
      by simp
  next
    fix c assume "c \<in> ran (consumersRef s')"
    with f show "consumerTransportRef s' = Some (c_transport c)" by simp
  qed
  with assms f show ?thesis by (simp add: ginv_def s'_def)
qed

lemma ginv_step:
  assumes "ginv {} s"
  shows "ginv {} (step s e)"
proof (cases e)
  case ClickConnect
  with assms show ?thesis by (simp add: step_def ginv_spawn)
next
  case (ChangeUserId u)
  have "ginv {} (s\<lparr>userId := u\<rparr>) = ginv {} s" by (rule ginv_eq) simp_all
  with assms ChangeUserId show ?thesis by (simp add: step_def)
next
  case ClickDisconnect
  with assms show ?thesis by (simp add: step_def ginv_disconnect)
next
  case ClickStartBroadcast
  with assms show ?thesis by (simp add: step_def ginv_spawn)
next
  case ClickStopBroadcast
  with assms show ?thesis by (simp add: step_def ginv_stopBroadcast)
next
  case (SocketEvent k ev)
  with assms show ?thesis by (simp add: step_def ginv_socketEvent)
next
  case (Resume i r)
  with assms show ?thesis by (simp add: step_def ginv_resume)
qed

lemma ginv_init: "ginv {} (init uid)"
  by (simp add: ginv_def cached_ok_def tasks_ok_def init_def)

lemma ginv_run: "ginv {} s \<Longrightarrow> ginv {} (run s es)"
  unfolding run_def by (induction es arbitrary: s) (simp_all add: ginv_step)

subsection \<open>Tasks that a handler leaves alone, and its progress\<close>

lemma keeps_refl: "keeps i s s"
  by (simp add: keeps_def)

lemma keeps_trans: "keeps i s s' \<Longrightarrow> keeps i s' s'' \<Longrightarrow> keeps i s s''"
  unfolding keeps_def by (metis dual_order.trans less_le_trans)

lemma keepsD: "keeps i s s' \<Longrightarrow> j < length (tasks s) \<Longrightarrow> j \<noteq> i \<Longrightarrow> tasks s' ! j = tasks s ! j"
  unfolding keeps_def by blast

lemma keeps_tasks_eq: "tasks s' = tasks s \<Longrightarrow> keeps i s s'"
  by (simp add: keeps_def)

lemma keeps_setTask: "keeps i s (setTask i t s)"
  by (simp add: keeps_def)

lemma keeps_spawn: "keeps i s (spawn t s)"
  by (simp add: keeps_def nth_append)

lemma keeps_emit: "emit m s = Some s' \<Longrightarrow> keeps i s s'"
  by (drule emit_fields) (simp add: keeps_tasks_eq)

lemma keeps_consumeStream:
  assumes "consumeStream p u s = Some s'"
  shows "keeps i s s'"
proof -
  from assms obtain s1 where e: "emit (Consume p) s = Some s1" and s': "s' = spawn (T_consumeAck p u) s1"
    by (rule consumeStream_Some)
  from keeps_emit [OF e] keeps_spawn [of i s1] show ?thesis
    unfolding s' by (rule keeps_trans)
qed

lemma keeps_awaitAndConsume:
  "keeps i s (case awaitAndConsume i uid a c s of Inl s' \<Rightarrow> s' | Inr s' \<Rightarrow> s')"
proof (cases "creatingConsumerTransportRef s")
  case True
  then show ?thesis by (simp add: awaitAndConsume_def keeps_setTask)
next
  case False
  then show ?thesis
    by (cases "consumeStream (ann_producerId a) (ann_userId a) s")
       (simp_all add: awaitAndConsume_def keeps_setTask keeps_consumeStream)
qed

lemma keeps_handleNewProducer:
  "keeps i s (case handleNewProducer i uid a c s of Inl s' \<Rightarrow> s' | Inr s' \<Rightarrow> s')"
proof (cases "ann_userId a = uid")
  case True
  then show ?thesis by (simp add: handleNewProducer_def keeps_refl)
next
  case self: False
  show ?thesis
  proof (cases "consumerTransportRef s = None \<and> \<not> creatingConsumerTransportRef s")
    case False
    with self have "handleNewProducer i uid a c s = awaitAndConsume i uid a c s"
      by (auto simp: handleNewProducer_def)
    then show ?thesis by (simp add: keeps_awaitAndConsume)
  next
    case True
    let ?s1 = "s\<lparr>creatingConsumerTransportRef := True\<rparr>"
    have k1: "keeps i s ?s1" by (simp add: keeps_tasks_eq)
    show ?thesis
    proof (cases "emit (CreateTransport False True) ?s1")
      case None
      with self True keeps_trans [OF k1 keeps_setTask] show ?thesis
        by (simp add: handleNewProducer_def Let_def)
    next
      case (Some s2)
      from keeps_trans [OF k1 keeps_trans [OF keeps_emit [OF Some] keeps_setTask]] self True Some
      show ?thesis by (simp add: handleNewProducer_def Let_def)
    qed
  qed
qed

lemma keeps_drain: "keeps i s (drain i uid todo s)"
proof (induction todo arbitrary: s)
  case Nil
  have "keeps i s (s\<lparr>pendingProducersRef := []\<rparr>)" by (simp add: keeps_tasks_eq)
  from keeps_trans [OF this keeps_setTask] show ?case by simp
next
  case (Cons a rest)
  show ?case
  proof (cases "handleNewProducer i uid a (Drain rest) s")
    case (Inl s')
    with keeps_handleNewProducer [of i s uid a "Drain rest"] show ?thesis by simp
  next
    case (Inr s')
    with keeps_handleNewProducer [of i s uid a "Drain rest"] have "keeps i s s'" by simp
    from keeps_trans [OF this Cons.IH] Inr show ?thesis by simp
  qed
qed

lemma keeps_continue: "keeps i s (continue i uid c s)"
  by (cases c) (simp_all add: continue_def keeps_setTask keeps_drain)

text \<open>Progress of a handler once the flag is clear.\<close>

lemma proceed_to_consume:
  assumes "\<not> creatingConsumerTransportRef s" and "socketRef s \<noteq> None" and "i < length (tasks s)"
    and "deviceRef s \<noteq> None"
  shows "tasks (resumeHandler i uid c (awaitAndConsume i uid a c s)) ! length (tasks s) =
           T_consumeAck (ann_producerId a) (ann_userId a) \<and>
         length (tasks s) < length (tasks (resumeHandler i uid c (awaitAndConsume i uid a c s)))"
proof -
  from assms(2) obtain q where q: "socketRef s = Some q" by auto
  then obtain s1 where e: "emit (Consume (ann_producerId a)) s = Some s1"
    by (simp add: emit_def)
  define s3 where "s3 = spawn (T_consumeAck (ann_producerId a) (ann_userId a)) s1"
  from emit_fields [OF e] have t3: "tasks s3 = tasks s @ [T_consumeAck (ann_producerId a) (ann_userId a)]"
    by (simp add: s3_def)
  from assms(1,4) e have "awaitAndConsume i uid a c s = Inr s3"
    by (simp add: awaitAndConsume_def consumeStream_def s3_def)
  then have r: "resumeHandler i uid c (awaitAndConsume i uid a c s) = continue i uid c s3"
    by (simp add: resumeHandler_def)
  have k: "keeps i s3 (continue i uid c s3)" by (rule keeps_continue)
  from t3 assms(3) have "length (tasks s) < length (tasks s3)" "length (tasks s) \<noteq> i" by simp_all
  with keepsD [OF k, of "length (tasks s)"] k t3 show ?thesis
    unfolding r by (simp add: keeps_def)
qed

subsection \<open>Counting, and single steps of the handlers\<close>

lemma filter_at_most_one:
  "(\<And>j j'. j < length xs \<Longrightarrow> j' < length xs \<Longrightarrow> P (xs ! j) \<Longrightarrow> P (xs ! j') \<Longrightarrow> j = j') \<Longrightarrow>
     length (filter P xs) \<le> 1"
proof (induction xs)
  case Nil
  show ?case by simp
next
  case (Cons x xs)
  have u: "j = j'" if "j < length xs" "j' < length xs" "P (xs ! j)" "P (xs ! j')" for j j'
    using Cons.prems [of "Suc j" "Suc j'"] that by simp
  show ?case
  proof (cases "P x")
    case False
    with Cons.IH u show ?thesis by simp
  next
    case True
    have "\<not> P y" if "y \<in> set xs" for y
    proof
      assume "P y"
      from that obtain j where "j < length xs" "xs ! j = y" by (auto simp: in_set_conv_nth)
      with Cons.prems [of 0 "Suc j"] True \<open>P y\<close> show False by simp
    qed
    then have "filter P xs = []" by (simp add: filter_empty_conv)
    with True show ?thesis by simp
  qed
qed

lemma ginv_count:
  assumes "ginv {} s"
  shows "length (filter creating (tasks s)) + length (filter inbound (transports s)) \<le> 1"
proof -
  from assms have co: "cached_ok s"
    and ts: "tasks_ok {} (creatingConsumerTransportRef s) (consumerTransportRef s) (deviceRef s) (tasks s)"
    by (simp_all add: ginv_def)
  have a: "length (filter creating (tasks s)) \<le> 1"
    using tasks_ok_unique [OF ts] by (intro filter_at_most_one) simp
  have b: "length (filter inbound (transports s)) \<le> 1"
  proof (rule filter_at_most_one)
    fix j j' assume "j < length (transports s)" "j' < length (transports s)"
      "inbound (transports s ! j)" "inbound (transports s ! j')"
    with cached_ok_recv [OF co, of j] cached_ok_recv [OF co, of j'] show "j = j'"
      by (simp add: inbound_def)
  qed
  show ?thesis
  proof (cases "filter creating (tasks s) = []")
    case True
    with b show ?thesis by simp
  next
    case False
    then obtain t where "t \<in> set (tasks s)" "creating t" by (auto simp: filter_empty_conv)
    then obtain i where i: "i < length (tasks s)" "creating (tasks s ! i)"
      by (auto simp: in_set_conv_nth)
    from tasks_ok_task [OF ts i(1)] i(2) have none: "consumerTransportRef s = None"
      by (cases "tasks s ! i") simp_all
    have "\<not> inbound y" if "y \<in> set (transports s)" for y
    proof
      assume "inbound y"
      from that obtain k where "k < length (transports s)" "transports s ! k = y"
        by (auto simp: in_set_conv_nth)
      with cached_ok_recv [OF co, of k] \<open>inbound y\<close> none show False by (simp add: inbound_def)
    qed
    then have "filter inbound (transports s) = []" by (simp add: filter_empty_conv)
    with a show ?thesis by simp
  qed
qed

lemma created_step:
  assumes "ginv {} s" and "i < length (tasks s)" and "tasks s ! i = T_createConsumerTransport u a c"
    and "socketRef s \<noteq> None"
  shows "transports (step s (Resume i (AckTransport tid))) =
           transports s @ [\<lparr>t_id = tid, t_dir = Recv, t_closed = False\<rparr>] \<and>
         consumerTransportRef (step s (Resume i (AckTransport tid))) = Some (length (transports s)) \<and>
         \<not> creatingConsumerTransportRef (step s (Resume i (AckTransport tid))) \<and>
         tasks (step s (Resume i (AckTransport tid))) ! length (tasks s) =
           T_consumeAck (ann_producerId a) (ann_userId a)"
proof -
  from ginv_task [OF assms(1,2)] assms(3) obtain d where d: "deviceRef s = Some d" by auto
  define s2 where "s2 = s\<lparr>transports := transports s @ [\<lparr>t_id = tid, t_dir = Recv, t_closed = False\<rparr>],
                   consumerTransportRef := Some (length (transports s)),
                   creatingConsumerTransportRef := False\<rparr>"
  define s' where "s' = resumeHandler i u c (awaitAndConsume i u a c s2)"
  from assms(2,3) d have st: "step s (Resume i (AckTransport tid)) = s'"
    by (simp add: step_def resume_def createConsumerTransport_ack_def Let_def s'_def s2_def)
  have f2: "\<not> creatingConsumerTransportRef s2" "socketRef s2 \<noteq> None" "i < length (tasks s2)"
    "deviceRef s2 \<noteq> None"
    "tasks s2 = tasks s" "transports s2 = transports s @ [\<lparr>t_id = tid, t_dir = Recv, t_closed = False\<rparr>]"
    "consumerTransportRef s2 = Some (length (transports s))"
    using assms(2,4) d by (simp_all add: s2_def)
  from proceed_to_consume [OF f2(1-4), of u c a] f2(5)
  have t: "tasks s' ! length (tasks s) = T_consumeAck (ann_producerId a) (ann_userId a)"
    by (simp add: s'_def)
  have tr: "transports s' = transports s2" "consumerTransportRef s' = consumerTransportRef s2"
    by (simp_all add: s'_def)
  from ginv_step [OF assms(1), of "Resume i (AckTransport tid)"] st have "cached_ok s'"
    by (simp add: ginv_def)
  from cached_ok_ref [OF this, of "length (transports s)"] tr f2
  have "\<not> creatingConsumerTransportRef s'" by simp
  with t tr f2 show ?thesis unfolding st by simp
qed

lemma polled_step:
  assumes "ginv {} s" and "i < length (tasks s)" and "tasks s ! i = T_poll u a c"
    and "consumerTransportRef s \<noteq> None" and "socketRef s \<noteq> None"
  shows "consumerTransportRef (step s (Resume i Timer)) = consumerTransportRef s \<and>
         transports (step s (Resume i Timer)) = transports s \<and>
         tasks (step s (Resume i Timer)) ! length (tasks s) =
           T_consumeAck (ann_producerId a) (ann_userId a)"
proof -
  from assms(1) have co: "cached_ok s" by (simp add: ginv_def)
  from assms(4) obtain k where "consumerTransportRef s = Some k" by auto
  from cached_ok_ref [OF co this] have nc: "\<not> creatingConsumerTransportRef s" by simp
  from assms(2,3) have st: "step s (Resume i Timer) = resumeHandler i u c (awaitAndConsume i u a c s)"
    by (simp add: step_def resume_def)
  from ginv_task [OF assms(1,2)] assms(3) have dev: "deviceRef s \<noteq> None" by simp
  from proceed_to_consume [OF nc assms(5,2) dev, of u c a] show ?thesis
    unfolding st by simp
qed

lemma consume_ack_step:
  assumes "ginv {} s" and "i < length (tasks s)" and "tasks s ! i = T_consumeAck p u"
  shows "\<exists>k. consumerTransportRef s = Some k \<and>
             step s (Resume i (AckConsume resp)) = setTask i (T_consume k resp u) s"
proof -
  from ginv_task [OF assms(1,2)] assms(3) obtain k where "consumerTransportRef s = Some k" by auto
  with assms(2,3) show ?thesis by (simp add: step_def resume_def consume_ack_def)
qed

subsection \<open>A flag that nothing clears\<close>

lemma stuck_eq:
  assumes "creatingConsumerTransportRef s' = creatingConsumerTransportRef s"
    "consumerTransportRef s' = consumerTransportRef s" "tasks s' = tasks s"
  shows "stuck s' = stuck s"
  using assms by (simp add: stuck_def)

lemma stuck_setTask: "stuck s \<Longrightarrow> \<not> creating t \<Longrightarrow> stuck (setTask i t s)"
  using set_update_subset_insert [of "tasks s" i t] by (auto simp: stuck_def)

lemma stuck_spawn: "stuck s \<Longrightarrow> \<not> creating t \<Longrightarrow> stuck (spawn t s)"
  by (simp add: stuck_def)

lemma stuck_emit: "emit m s = Some s' \<Longrightarrow> stuck s' = stuck s"
  by (drule emit_fields) (simp add: stuck_def)

lemma stuck_awaitAndConsume:
  "stuck s \<Longrightarrow> awaitAndConsume i uid a c s = Inl (setTask i (T_poll uid a c) s)"
  by (simp add: awaitAndConsume_def stuck_def)

lemma stuck_handleNewProducer:
  "stuck s \<Longrightarrow> handleNewProducer i uid a c s =
     (if ann_userId a = uid then Inr s else Inl (setTask i (T_poll uid a c) s))"
  by (simp add: handleNewProducer_def stuck_awaitAndConsume) (simp add: stuck_def)

lemma stuck_pending [simp]: "stuck (s\<lparr>pendingProducersRef := p\<rparr>) = stuck s"
  by (simp add: stuck_def)

lemma stuck_drain: "stuck s \<Longrightarrow> stuck (drain i uid todo s)"
  by (induction todo) (simp_all add: stuck_handleNewProducer stuck_setTask)

lemma stuck_continue: "stuck s \<Longrightarrow> stuck (continue i uid c s)"
  by (cases c) (simp_all add: continue_def stuck_setTask stuck_drain)

lemma stuck_afterProduce: "stuck s \<Longrightarrow> stuck (afterProduce i uid s)"
  by (cases "emit RefreshProducers s")
     (simp_all add: afterProduce_def stuck_setTask stuck_drain stuck_emit)

lemma stuck_produceAudio: "stuck s \<Longrightarrow> stuck (produceAudio i uid b s)"
  by (cases "producerTransportRef s") (simp_all add: produceAudio_def stuck_setTask stuck_afterProduce)

lemma stuck_resume:
  assumes "stuck s"
  shows "stuck (resume i r s)"
proof (cases "i < length (tasks s)")
  case False
  with assms show ?thesis by (simp add: resume_def)
next
  case True
  with assms have nc: "\<not> creating (tasks s ! i)" by (simp add: stuck_def)
  show ?thesis
  proof (cases "tasks s ! i")
    case T_fetch
    have "stuck (connect_done d s) = stuck s" for d
      by (rule stuck_eq) (simp_all add: connect_done_def)
    with True T_fetch assms show ?thesis
      by (cases r) (simp_all add: resume_def stuck_setTask)
  next
    case (T_getUserMedia uid ci)
    let ?s0 = "s\<lparr>localStreamRef := Some stream, localVideoSrc := True\<rparr>"
    have "stuck (s\<lparr>localStreamRef := l, localVideoSrc := v\<rparr>) = stuck s" for l v
      by (rule stuck_eq) simp_all
    with assms have a: "stuck (setTask i T_done (s\<lparr>localStreamRef := l, localVideoSrc := v\<rparr>))" for l v
      by (simp add: stuck_setTask)
    have "stuck (x\<lparr>sockets := ss, socketRef := q, isBroadcasting := b\<rparr>) = stuck x" for x ss q b
      by (rule stuck_eq) simp_all
    with a True T_getUserMedia assms show ?thesis
      by (cases r; cases ci) (simp_all add: resume_def startBroadcast_media_def Let_def stuck_setTask)
  next
    case (T_load d uid)
    let ?s1 = "s\<lparr>devices := (devices s)[d := True]\<rparr>"
    have "stuck ?s1 = stuck s" by (rule stuck_eq) simp_all
    with assms have s1: "stuck ?s1" by simp
    have "stuck (load_done i d uid s)"
      using s1 by (cases "emit (CreateTransport True False) ?s1")
        (simp_all add: load_done_def Let_def stuck_setTask stuck_emit)
    with True T_load assms show ?thesis
      by (cases r) (simp_all add: resume_def stuck_setTask)
  next
    case (T_createProducerTransport uid)
    have "stuck (s\<lparr>transports := ts, producerTransportRef := q\<rparr>) = stuck s" for ts q
      by (rule stuck_eq) simp_all
    with assms have s1: "stuck (s\<lparr>transports := ts, producerTransportRef := q\<rparr>)" for ts q by simp
    from s1 [THEN stuck_setTask] s1 [THEN stuck_produceAudio] True T_createProducerTransport assms
    show ?thesis
      by (cases r; cases "deviceRef s"; cases "localStreamRef s")
         (simp_all add: resume_def createProducerTransport_ack_def Let_def stuck_setTask)
  next
    case (T_produceVideo uid b k)
    have "stuck (s\<lparr>producersRef := q\<rparr>) = stuck s" for q by (rule stuck_eq) simp_all
    with assms have "stuck (s\<lparr>producersRef := q\<rparr>)" for q by simp
    from this [THEN stuck_produceAudio] True T_produceVideo assms show ?thesis
      by (cases r) (simp_all add: resume_def produceVideo_done_def stuck_setTask)
  next
    case (T_produceAudio uid k)
    have "stuck (s\<lparr>producersRef := q\<rparr>) = stuck s" for q by (rule stuck_eq) simp_all
    with assms have "stuck (s\<lparr>producersRef := q\<rparr>)" for q by simp
    from this [THEN stuck_afterProduce] True T_produceAudio assms show ?thesis
      by (cases r) (simp_all add: resume_def produceAudio_done_def stuck_setTask)
  next
    case (T_createConsumerTransport uid a c)
    with nc show ?thesis by simp
  next
    case (T_poll uid a c)
    with True assms show ?thesis
      by (cases r) (simp_all add: resume_def stuck_awaitAndConsume resumeHandler_def stuck_setTask)
  next
    case (T_consumeAck p u)
    from assms have "consumerTransportRef s = None" by (simp add: stuck_def)
    with True T_consumeAck assms show ?thesis
      by (cases r) (simp_all add: resume_def consume_ack_def stuck_setTask)
  next
    case (T_consume k resp u)
    have "stuck (s\<lparr>consumersRef := q, participants := w\<rparr>) = stuck s" for q w
      by (rule stuck_eq) simp_all
    with assms have "stuck (s\<lparr>consumersRef := q, participants := w\<rparr>)" for q w by simp
    from this [THEN stuck_setTask] True T_consume assms show ?thesis
      by (cases r) (simp_all add: resume_def consume_done_def Let_def stuck_setTask)
  qed (use True assms in \<open>simp_all add: resume_def\<close>)
qed

lemma stuck_socketEvent:
  assumes "stuck s"
  shows "stuck (socketEvent k ev s)"
proof (cases ev)
  case RouterCapabilities
  have "stuck (s\<lparr>devices := ds, deviceRef := q\<rparr>) = stuck s" for ds q
    by (rule stuck_eq) simp_all
  with assms RouterCapabilities show ?thesis
    by (simp add: socketEvent_def routerCapabilities_def stuck_spawn)
next
  case (NewProducer a)
  from assms have "stuck (spawn T_done s)" by (simp add: stuck_spawn)
  with NewProducer assms show ?thesis
    by (simp add: socketEvent_def newProducer_def Let_def stuck_handleNewProducer resumeHandler_def
        stuck_continue stuck_setTask)
next
  case (PeerDisconnected u)
  have "stuck (peerDisconnected u s) = stuck s"
    by (rule stuck_eq) (simp_all add: peerDisconnected_def)
  with assms PeerDisconnected show ?thesis by (simp add: socketEvent_def)
qed

lemma stuck_step:
  assumes "stuck s"
  shows "stuck (step s e)"
proof (cases e)
  case (ChangeUserId u)
  have "stuck (s\<lparr>userId := u\<rparr>) = stuck s" by (rule stuck_eq) simp_all
  with assms ChangeUserId show ?thesis by (simp add: step_def)
next
  case ClickDisconnect
  have "stuck (disconnect s) = stuck s" by (rule stuck_eq) (simp_all add: disconnect_def Let_def)
  with assms ClickDisconnect show ?thesis by (simp add: step_def)
next
  case ClickStopBroadcast
  have "stuck (stopBroadcast s) = stuck s" by (rule stuck_eq) (simp_all add: stopBroadcast_def Let_def)
  with assms ClickStopBroadcast show ?thesis by (simp add: step_def)
qed (use assms in \<open>simp_all add: step_def stuck_spawn stuck_socketEvent stuck_resume\<close>)

lemma stuck_run: "stuck s \<Longrightarrow> stuck (run s es)"
  unfolding run_def by (induction es arbitrary: s) (simp_all add: stuck_step)

lemma run_append: "run s (es @ es') = run (run s es) es'"
  by (simp add: run_def)

lemma no_inbound_without_handle:
  assumes "ginv {} s" and "consumerTransportRef s = None"
  shows "filter inbound (transports s) = []"
proof -
  from assms(1) have co: "cached_ok s" by (simp add: ginv_def)
  have "\<not> inbound y" if "y \<in> set (transports s)" for y
  proof
    assume "inbound y"
    from that obtain k where "k < length (transports s)" "transports s ! k = y"
      by (auto simp: in_set_conv_nth)
    with cached_ok_recv [OF co, of k] \<open>inbound y\<close> assms(2) show False by (simp add: inbound_def)
  qed
  then show ?thesis by (simp add: filter_empty_conv)
qed

subsection \<open>Steps that set the flag, steps that negotiate\<close>











subsection \<open>C1: one inbound transport\<close>

text \<open>C1: whatever announcements, answers, timers and clicks arrive, in whatever
  order, in every state the application reaches from its start
  \<^item> the tasks creating the inbound transport and the inbound transports ever
    constructed are at most one altogether;
  \<^item> every inbound transport in the store is the one cached in
    \<^verbatim>\<open>consumerTransportRef\<close>, every registered consumer was made on the cached handle
    and every pending \<^verbatim>\<open>consume()\<close> was called on it;
  \<^item> when the server answers the one request with the transport's parameters, the
    transport is constructed and cached, the flag is cleared and the handler that
    asked sends its request to consume;
  \<^item> a handler that waits in the polling loop, once a handle is cached, sends its
    request to consume at the next tick of its timer, with the same handle cached;
  \<^item> the callback of a request to consume calls \<^verbatim>\<open>consume()\<close> on the cached handle.
  The last three hold while the socket ref is not null.\<close>

theorem one_inbound_transport_for_all_handlers:
  assumes "s = run (init me) es"
  shows "length (filter creating (tasks s)) + length (filter inbound (transports s)) \<le> 1 \<and>
    (\<forall>k < length (transports s). inbound (transports s ! k) \<longrightarrow> consumerTransportRef s = Some k) \<and>
    (\<forall>c \<in> ran (consumersRef s). consumerTransportRef s = Some (c_transport c)) \<and>
    (\<forall>i < length (tasks s). \<forall>k r u. tasks s ! i = T_consume k r u \<longrightarrow> consumerTransportRef s = Some k) \<and>
    (\<forall>i < length (tasks s). \<forall>u a c tid.
        tasks s ! i = T_createConsumerTransport u a c \<longrightarrow> socketRef s \<noteq> None \<longrightarrow>
          transports (step s (Resume i (AckTransport tid))) =
            transports s @ [\<lparr>t_id = tid, t_dir = Recv, t_closed = False\<rparr>] \<and>
          consumerTransportRef (step s (Resume i (AckTransport tid))) = Some (length (transports s)) \<and>
          \<not> creatingConsumerTransportRef (step s (Resume i (AckTransport tid))) \<and>
          tasks (step s (Resume i (AckTransport tid))) ! length (tasks s) =
            T_consumeAck (ann_producerId a) (ann_userId a)) \<and>
    (\<forall>i < length (tasks s). \<forall>u a c.
        tasks s ! i = T_poll u a c \<longrightarrow> consumerTransportRef s \<noteq> None \<longrightarrow> socketRef s \<noteq> None \<longrightarrow>
          consumerTransportRef (step s (Resume i Timer)) = consumerTransportRef s \<and>
          transports (step s (Resume i Timer)) = transports s \<and>
          tasks (step s (Resume i Timer)) ! length (tasks s) =
            T_consumeAck (ann_producerId a) (ann_userId a)) \<and>
    (\<forall>i < length (tasks s). \<forall>p u resp.
        tasks s ! i = T_consumeAck p u \<longrightarrow>
          (\<exists>k. consumerTransportRef s = Some k \<and>
               step s (Resume i (AckConsume resp)) = setTask i (T_consume k resp u) s))"
proof -
  from ginv_run [OF ginv_init, of me es] assms have g: "ginv {} s" by simp
  then have co: "cached_ok s" by (simp add: ginv_def)
  have 1: "length (filter creating (tasks s)) + length (filter inbound (transports s)) \<le> 1"
    by (rule ginv_count [OF g])
  have 2: "\<forall>k < length (transports s). inbound (transports s ! k) \<longrightarrow> consumerTransportRef s = Some k"
    using cached_ok_recv [OF co] by (simp add: inbound_def)
  have 3: "\<forall>c \<in> ran (consumersRef s). consumerTransportRef s = Some (c_transport c)"
    using cached_ok_consumer [OF co] by blast
  have 4: "\<forall>i < length (tasks s). \<forall>k r u. tasks s ! i = T_consume k r u \<longrightarrow> consumerTransportRef s = Some k"
  proof (intro allI impI)
    fix i k r u assume "i < length (tasks s)" "tasks s ! i = T_consume k r u"
    with ginv_task [OF g, of i] show "consumerTransportRef s = Some k" by simp
  qed
  have 5: "\<forall>i < length (tasks s). \<forall>u a c tid.
        tasks s ! i = T_createConsumerTransport u a c \<longrightarrow> socketRef s \<noteq> None \<longrightarrow>
          transports (step s (Resume i (AckTransport tid))) =
            transports s @ [\<lparr>t_id = tid, t_dir = Recv, t_closed = False\<rparr>] \<and>
          consumerTransportRef (step s (Resume i (AckTransport tid))) = Some (length (transports s)) \<and>
          \<not> creatingConsumerTransportRef (step s (Resume i (AckTransport tid))) \<and>
          tasks (step s (Resume i (AckTransport tid))) ! length (tasks s) =
            T_consumeAck (ann_producerId a) (ann_userId a)"
    by (intro allI impI) (rule created_step [OF g])
  have 6: "\<forall>i < length (tasks s). \<forall>u a c.
        tasks s ! i = T_poll u a c \<longrightarrow> consumerTransportRef s \<noteq> None \<longrightarrow> socketRef s \<noteq> None \<longrightarrow>
          consumerTransportRef (step s (Resume i Timer)) = consumerTransportRef s \<and>
          transports (step s (Resume i Timer)) = transports s \<and>
          tasks (step s (Resume i Timer)) ! length (tasks s) =
            T_consumeAck (ann_producerId a) (ann_userId a)"
    by (intro allI impI) (rule polled_step [OF g])
  have 7: "\<forall>i < length (tasks s). \<forall>p u resp.
        tasks s ! i = T_consumeAck p u \<longrightarrow>
          (\<exists>k. consumerTransportRef s = Some k \<and>
               step s (Resume i (AckConsume resp)) = setTask i (T_consume k resp u) s)"
    by (intro allI impI) (rule consume_ack_step [OF g])
  show ?thesis by (intro conjI 1 2 3 4 5 6 7)
qed

text \<open>C1 at the three announcements of \<open>b\<close>, \<open>c\<close> and \<open>d\<close>: one task creates the
  transport and two wait; the answer constructs the one transport; the handlers of
  \<open>c\<close> and \<open>d\<close> proceed at their next tick; all three call \<^verbatim>\<open>consume()\<close> on transport 1.
  And at the session in which alice is consumed: her consumer \<open>c1\<close> is on the cached
  handle.\<close>

theorem one_inbound_transport_for_all_handlers_witness:
  "s_three = run (init ''me'') ev_three \<and>
   3 < length (tasks s_three) \<and>
   tasks s_three ! 3 = T_createConsumerTransport ''me'' (ann ''p1'' ''b'' ''video'') Live \<and>
   socketRef s_three \<noteq> None \<and>
   length (filter creating (tasks s_three)) + length (filter inbound (transports s_three)) \<le> 1 \<and>
   consumerTransportRef (step s_three (Resume 3 (AckTransport ''recv-1''))) = Some (length (transports s_three)) \<and>
   tasks (step s_three (Resume 3 (AckTransport ''recv-1''))) ! length (tasks s_three) =
     T_consumeAck (ann_producerId (ann ''p1'' ''b'' ''video'')) (ann_userId (ann ''p1'' ''b'' ''video'')) \<and>
   s_three_created = run (init ''me'') ev_three_created \<and>
   4 < length (tasks s_three_created) \<and>
   tasks s_three_created ! 4 = T_poll ''me'' (ann ''p2'' ''c'' ''video'') Live \<and>
   consumerTransportRef s_three_created \<noteq> None \<and> socketRef s_three_created \<noteq> None \<and>
   tasks (step s_three_created (Resume 4 Timer)) ! length (tasks s_three_created) =
     T_consumeAck (ann_producerId (ann ''p2'' ''c'' ''video'')) (ann_userId (ann ''p2'' ''c'' ''video'')) \<and>
   6 < length (tasks s_three_created) \<and> tasks s_three_created ! 6 = T_consumeAck ''p1'' ''b'' \<and>
   (\<exists>k. consumerTransportRef s_three_created = Some k \<and>
        step s_three_created (Resume 6 (AckConsume (desc ''c1'' ''p1'' ''video''))) =
          setTask 6 (T_consume k (desc ''c1'' ''p1'' ''video'') ''b'') s_three_created) \<and>
   s_three_consuming = run (init ''me'') ev_three_consuming \<and>
   8 < length (tasks s_three_consuming) \<and>
   tasks s_three_consuming ! 8 = T_consume 1 (desc ''c3'' ''p3'' ''video'') ''d'' \<and>
   1 < length (transports s_three_consuming) \<and> inbound (transports s_three_consuming ! 1) \<and>
   consumerTransportRef s_three_consuming = Some 1 \<and>
   length (filter inbound (transports s_three_consuming)) = 1 \<and>
   1 < length (transports s_three_created) \<and> inbound (transports s_three_created ! 1) \<and>
   consumerTransportRef s_three_created = Some 1 \<and>
   s_alice = run (init ''me'') ev_alice \<and>
   consumer_c1 \<in> ran (consumersRef s_alice) \<and>
   consumerTransportRef s_alice = Some (c_transport consumer_c1)"
proof -
  have a1: "s_three = run (init ''me'') ev_three" by (simp add: s_three_def)
  have a2: "3 < length (tasks s_three)" by code_simp
  have a3: "tasks s_three ! 3 = T_createConsumerTransport ''me'' (ann ''p1'' ''b'' ''video'') Live"
    by code_simp
  have a4: "socketRef s_three \<noteq> None" by code_simp
  have b1: "s_three_created = run (init ''me'') ev_three_created" by (simp add: s_three_created_def)
  have b2: "4 < length (tasks s_three_created)" by code_simp
  have b3: "tasks s_three_created ! 4 = T_poll ''me'' (ann ''p2'' ''c'' ''video'') Live" by code_simp
  have b4: "consumerTransportRef s_three_created \<noteq> None" by code_simp
  have b5: "socketRef s_three_created \<noteq> None" by code_simp
  have b6: "6 < length (tasks s_three_created)" by code_simp
  have b7: "tasks s_three_created ! 6 = T_consumeAck ''p1'' ''b''" by code_simp
  have c1: "s_three_consuming = run (init ''me'') ev_three_consuming" by (simp add: s_three_consuming_def)
  have c2: "8 < length (tasks s_three_consuming)" by code_simp
  have c3: "tasks s_three_consuming ! 8 = T_consume 1 (desc ''c3'' ''p3'' ''video'') ''d''" by code_simp
  have c4: "1 < length (transports s_three_consuming)" by code_simp
  have c5: "inbound (transports s_three_consuming ! 1)" by code_simp
  have c6: "length (filter inbound (transports s_three_consuming)) = 1" by code_simp
  have b8: "1 < length (transports s_three_created)" by code_simp
  have b9: "inbound (transports s_three_created ! 1)" by code_simp
  have d1: "s_alice = run (init ''me'') ev_alice" by (simp add: s_alice_def)
  have "consumersRef s_alice ''c1'' = Some consumer_c1" by code_simp
  then have d2: "consumer_c1 \<in> ran (consumersRef s_alice)" by (rule ranI)
  note D = one_inbound_transport_for_all_handlers [OF d1]
  from D d2 have D3: "consumerTransportRef s_alice = Some (c_transport consumer_c1)" by blast
  note A = one_inbound_transport_for_all_handlers [OF a1]
  note B = one_inbound_transport_for_all_handlers [OF b1]
  note C = one_inbound_transport_for_all_handlers [OF c1]
  from A have A1: "length (filter creating (tasks s_three)) + length (filter inbound (transports s_three)) \<le> 1"
    by (rule conjunct1)
  from A a2 a3 a4
  have A5: "consumerTransportRef (step s_three (Resume 3 (AckTransport ''recv-1''))) = Some (length (transports s_three)) \<and>
     tasks (step s_three (Resume 3 (AckTransport ''recv-1''))) ! length (tasks s_three) =
       T_consumeAck (ann_producerId (ann ''p1'' ''b'' ''video'')) (ann_userId (ann ''p1'' ''b'' ''video''))"
    by blast
  from B b2 b3 b4 b5
  have B6: "tasks (step s_three_created (Resume 4 Timer)) ! length (tasks s_three_created) =
     T_consumeAck (ann_producerId (ann ''p2'' ''c'' ''video'')) (ann_userId (ann ''p2'' ''c'' ''video''))"
    by blast
  from B b6 b7
  have B7: "\<exists>k. consumerTransportRef s_three_created = Some k \<and>
        step s_three_created (Resume 6 (AckConsume (desc ''c1'' ''p1'' ''video''))) =
          setTask 6 (T_consume k (desc ''c1'' ''p1'' ''video'') ''b'') s_three_created"
    by blast
  from C c2 c3 have C4: "consumerTransportRef s_three_consuming = Some 1" by blast
  note B2 = B [THEN conjunct2, THEN conjunct1, rule_format, OF b8 b9]
  note A5a = A5 [THEN conjunct1] and A5b = A5 [THEN conjunct2]
  show ?thesis
    by (intro conjI a1 a2 a3 a4 A1 A5a A5b b1 b2 b3 b4 b5 B6 b6 b7 B7 c1 c2 c3 c4 c5 C4 c6
        b8 b9 B2 d1 d2 D3)
qed

subsection \<open>C2: the signaling server refuses the inbound transport\<close>

text \<open>C2 says that after an error answer to the request for the inbound transport
  the in-progress flag is cleared, the failure reaches the caller, no handle is
  cached, and a later announcement creates the transport afresh. In the code the
  statement \<^verbatim>\<open>creatingConsumerTransportRef.current = false\<close> follows the \<^verbatim>\<open>await\<close> and
  is not reached when the promise is rejected. After the error answer for bob's
  announcement the handler has thrown and no transport is cached, but the flag is
  still set; carol's handler then sends no second request and stays in the polling
  loop at every tick of its timer. And whatever happens after the error answer, the
  flag stays set, no handle is cached, no task creates the transport and no inbound
  transport is ever constructed.\<close>

theorem creating_flag_stuck_after_error:
  "tasks s_create_failed ! 3 = T_rejected \<and>
   consumerTransportRef s_create_failed = None \<and>
   creatingConsumerTransportRef s_create_failed \<and>
   tasks s_retry ! 4 = T_poll ''me'' (ann ''p2'' ''carol'' ''video'') Live \<and>
   creatingConsumerTransportRef s_retry \<and> consumerTransportRef s_retry = None \<and>
   s_sent (sockets s_retry ! 0) = [CreateTransport True False, RefreshProducers, CreateTransport False True] \<and>
   map t_dir (transports s_retry) = [Send] \<and>
   (\<forall>es. creatingConsumerTransportRef (run s_create_failed es) \<and>
         consumerTransportRef (run s_create_failed es) = None \<and>
         filter creating (tasks (run s_create_failed es)) = [] \<and>
         filter inbound (transports (run s_create_failed es)) = [])"
proof -
  have c: "tasks s_create_failed ! 3 = T_rejected \<and>
     consumerTransportRef s_create_failed = None \<and>
     creatingConsumerTransportRef s_create_failed \<and>
     tasks s_retry ! 4 = T_poll ''me'' (ann ''p2'' ''carol'' ''video'') Live \<and>
     creatingConsumerTransportRef s_retry \<and> consumerTransportRef s_retry = None \<and>
     s_sent (sockets s_retry ! 0) = [CreateTransport True False, RefreshProducers, CreateTransport False True] \<and>
     map t_dir (transports s_retry) = [Send]"
    by code_simp
  have st: "stuck s_create_failed" by code_simp
  have g: "ginv {} (run s_create_failed es)" for es
    unfolding s_create_failed_def by (intro ginv_run ginv_init)
  have "creatingConsumerTransportRef (run s_create_failed es) \<and>
         consumerTransportRef (run s_create_failed es) = None \<and>
         filter creating (tasks (run s_create_failed es)) = [] \<and>
         filter inbound (transports (run s_create_failed es)) = []" for es
    using stuck_run [OF st, of es] no_inbound_without_handle [OF g [of es]]
    by (simp add: stuck_def filter_empty_conv)
  with c show ?thesis by blast
qed

subsection \<open>C3: pending producers and live announcements\<close>

text \<open>C3 says that every announcement arriving before capability negotiation is
  complete is buffered, and that the buffered ones are handled, in order, before any
  later one is handled live. The \<^verbatim>\<open>newProducer\<close> listener buffers while
  \<^verbatim>\<open>deviceRef.current\<close> is null, and the ref is assigned before \<^verbatim>\<open>load\<close> is awaited and
  long before the loop over the pending producers runs. So the announcement of
  \<open>late\<close>, arriving after the device is loaded, is handled at once while the one of
  \<open>early\<close> is still pending, and \<open>late\<close>'s producer is consumed before \<open>early\<close>'s;
  and an announcement arriving while the device is loading is not buffered but
  handled live.\<close>

theorem live_announcement_overtakes_pending:
  "devices s_overtaken = [True] \<and>
   pendingProducersRef s_overtaken = [ann ''p1'' ''early'' ''video''] \<and>
   tasks s_overtaken ! 3 = T_createConsumerTransport ''me'' (ann ''p2'' ''late'' ''video'') Live \<and>
   s_sent (sockets s_overtaken_end ! 0) =
     [CreateTransport True False, CreateTransport False True, Consume ''p2'',
      RefreshProducers, Consume ''p1''] \<and>
   devices s_loading = [False] \<and> pendingProducersRef s_loading = [] \<and>
   tasks s_loading ! 3 = T_createConsumerTransport ''me'' (ann ''p1'' ''bob'' ''video'') Live"
  by code_simp

subsection \<open>C4: tracks of a participant's stream\<close>

text \<open>C4 says that the stream of a participant holds at most one audio and at most
  one video track, a second announcement of the same participant and kind replacing
  the track. In the code the updater only ever calls \<^verbatim>\<open>addTrack\<close>: after alice's video
  \<open>p1\<close>, audio \<open>p2\<close> and video \<open>p3\<close> have been consumed, her stream holds three tracks,
  two of them video, while \<open>videoProducerId\<close> is \<open>p3\<close>.\<close>

theorem duplicate_announcement_adds_a_track:
  "map_option (\<lambda>p. map tr_kind (p_stream p)) (participants s_alice_again ''alice'') =
     Some [''video'', ''audio'', ''video''] \<and>
   map_option videoProducerId (participants s_alice_again ''alice'') = Some (Some ''p3'')"
  by code_simp

text \<open>C4, amended: for a participant that has no entry yet and any nonempty sequence
  of consumed announcements for it, each with a track object of its own, the entry
  exists afterwards, its stream holds one track for each consumed announcement, in
  the order of consumption (none is removed), and \<open>videoProducerId\<close> and
  \<open>audioProducerId\<close> are the producer ids of the last consumed announcement of the kind
  (none when there was no such announcement).\<close>

theorem stream_accumulates_and_slots_track_latest:
  assumes "P u = None" and "distinct (map snd xs)" and "xs \<noteq> []"
  shows "\<exists>p. consumed u xs P u = Some p \<and> p_stream p = map snd xs \<and>
           videoProducerId p = lastProducer ''video'' xs \<and>
           audioProducerId p = lastProducer ''audio'' xs"
  using assms(2,3)
proof (induction xs rule: rev_induct)
  case Nil
  then show ?case by simp
next
  case (snoc x xs)
  obtain r t where x: "x = (r, t)" by (cases x)
  show ?case
  proof (cases "xs = []")
    case True
    with assms(1) x show ?thesis
      by (auto simp: updateParticipant_def Let_def addTrack_def lastProducer_def)
  next
    case False
    with snoc obtain p where p: "consumed u xs P u = Some p" "p_stream p = map snd xs"
        "videoProducerId p = lastProducer ''video'' xs" "audioProducerId p = lastProducer ''audio'' xs"
      by auto
    from snoc.prems x have "t \<notin> set (map snd xs)" by auto
    with p x show ?thesis
      by (auto simp: consumed_snoc lastProducer_snoc updateParticipant_def Let_def addTrack_def)
  qed
qed

text \<open>The amended C4 at two video announcements of alice.\<close>

theorem stream_accumulates_and_slots_track_latest_witness:
  "(Map.empty :: string \<rightharpoonup> participant) ''alice'' = None \<and>
   distinct (map snd two_videos) \<and> two_videos \<noteq> [] \<and>
   (\<exists>p. consumed ''alice'' two_videos Map.empty ''alice'' = Some p \<and>
        p_stream p = [\<lparr>tr_obj = 4, tr_kind = ''video''\<rparr>, \<lparr>tr_obj = 8, tr_kind = ''video''\<rparr>] \<and>
        videoProducerId p = Some ''p3'' \<and> audioProducerId p = None)"
proof -
  have h1: "(Map.empty :: string \<rightharpoonup> participant) ''alice'' = None" by simp
  have h2: "distinct (map snd two_videos)" by (simp add: two_videos_def)
  have h3: "two_videos \<noteq> []" by (simp add: two_videos_def)
  have e1: "map snd two_videos = [\<lparr>tr_obj = 4, tr_kind = ''video''\<rparr>, \<lparr>tr_obj = 8, tr_kind = ''video''\<rparr>]"
    by (simp add: two_videos_def)
  have e2: "lastProducer ''video'' two_videos = Some ''p3''"
    by (simp add: two_videos_def lastProducer_def desc_def)
  have e3: "lastProducer ''audio'' two_videos = None"
    by (simp add: two_videos_def lastProducer_def desc_def)
  from stream_accumulates_and_slots_track_latest [OF h1 h2 h3] h1 h2 h3 e1 e2 e3
  show ?thesis by simp
qed

subsection \<open>C5: announcements of the local user\<close>

text \<open>C5: an announcement whose user id is the local one (the \<^verbatim>\<open>userId\<close> the listeners
  of the socket closed over) creates no participant, no consumer and no inbound
  transport. Arriving on an open socket once a device exists, it leaves the state as
  it is, but for the record of a handler that has returned; arriving before, it is
  only appended to the pending producers; and in the loop over the pending producers
  it is skipped: the loop goes on with the rest in the same state.\<close>

theorem self_announcement_creates_nothing:
  assumes "k < length (sockets s)" and "s_open (sockets s ! k)"
    and "ann_userId a = s_userId (sockets s ! k)"
  shows "step s (SocketEvent k (NewProducer a)) =
           (if deviceRef s = None then s\<lparr>pendingProducersRef := pendingProducersRef s @ [a]\<rparr>
            else spawn T_done s) \<and>
         drain i (s_userId (sockets s ! k)) (a # rest) s' = drain i (s_userId (sockets s ! k)) rest s'"
  using assms
  by (simp add: step_def socketEvent_def newProducer_def handleNewProducer_def resumeHandler_def
      continue_def spawn_done_setTask Let_def)

text \<open>C5 at an announcement of \<open>me\<close> on the socket of \<open>me\<close>, after negotiation.\<close>

theorem self_announcement_creates_nothing_witness:
  "0 < length (sockets s_negotiated) \<and> s_open (sockets s_negotiated ! 0) \<and>
   ann_userId (ann ''p9'' ''me'' ''video'') = s_userId (sockets s_negotiated ! 0) \<and>
   deviceRef s_negotiated \<noteq> None \<and>
   step s_negotiated (SocketEvent 0 (NewProducer (ann ''p9'' ''me'' ''video''))) = spawn T_done s_negotiated"
proof -
  have h1: "0 < length (sockets s_negotiated)" by code_simp
  have h2: "s_open (sockets s_negotiated ! 0)" by code_simp
  have h3: "ann_userId (ann ''p9'' ''me'' ''video'') = s_userId (sockets s_negotiated ! 0)" by code_simp
  have h4: "deviceRef s_negotiated \<noteq> None" by code_simp
  from self_announcement_creates_nothing [OF h1 h2 h3, of 0 "[]" s_negotiated] h1 h2 h3 h4
  show ?thesis by simp
qed

subsection \<open>C6: stop and start again\<close>

text \<open>C6 says that Stop Broadcasting followed by Start Broadcasting behaves as one
  Start Broadcasting of a connected session, nothing of the first broadcast having
  an effect on the second. \<^verbatim>\<open>stopBroadcast\<close> does empty the producers, consumers and
  participants, but it leaves the closed inbound transport in
  \<^verbatim>\<open>consumerTransportRef\<close> and the old device in \<^verbatim>\<open>deviceRef\<close>. In the second broadcast
  an announcement arriving before the router's capabilities is therefore handled
  live, where the first broadcast buffers it; and after the second negotiation bob's
  announcement does not make the client ask for an inbound transport, as it does in
  a first broadcast: the request to consume is sent at once, and \<^verbatim>\<open>consume()\<close> is called
  on the transport that the stop has closed.\<close>

theorem second_broadcast_reuses_closed_transport:
  "producersRef s_stopped ''video'' = None \<and> producersRef s_stopped ''audio'' = None \<and>
   consumersRef s_stopped ''c1'' = None \<and> consumersRef s_stopped ''c2'' = None \<and>
   participants s_stopped ''alice'' = None \<and>
   consumerTransportRef s_started = None \<and> deviceRef s_started = None \<and>
   consumerTransportRef s_restarted = Some 1 \<and> t_closed (transports s_restarted ! 1) \<and>
   deviceRef s_restarted = Some 0 \<and>
   pendingProducersRef (step s_started (SocketEvent 0 (NewProducer (ann ''p5'' ''bob'' ''video'')))) =
     [ann ''p5'' ''bob'' ''video''] \<and>
   pendingProducersRef (step s_restarted (SocketEvent 1 (NewProducer (ann ''p5'' ''bob'' ''video'')))) = [] \<and>
   s_sent (sockets (step s_negotiated (SocketEvent 0 (NewProducer (ann ''p5'' ''bob'' ''video'')))) ! 0) =
     [CreateTransport True False, RefreshProducers, CreateTransport False True] \<and>
   s_sent (sockets (step s_renegotiated (SocketEvent 1 (NewProducer (ann ''p5'' ''bob'' ''video'')))) ! 1) =
     [CreateTransport True False, RefreshProducers, Consume ''p5''] \<and>
   tasks (run s_renegotiated [SocketEvent 1 (NewProducer (ann ''p5'' ''bob'' ''video'')),
                              Resume 10 (AckConsume (desc ''c5'' ''p5'' ''video''))]) ! 10 =
     T_consume 1 (desc ''c5'' ''p5'' ''video'') ''bob'' \<and>
   t_closed (transports s_renegotiated ! 1)"
  by code_simp

subsection \<open>C7: when the session is marked as broadcasting\<close>




subsection \<open>C8: disconnect while broadcasting\<close>

text \<open>C8 says that \<^verbatim>\<open>disconnect\<close>, while broadcasting, does all that \<^verbatim>\<open>stopBroadcast\<close>
  does. \<^verbatim>\<open>stopBroadcast\<close> closes both transports and clears \<^verbatim>\<open>producersRef\<close> and
  \<^verbatim>\<open>consumersRef\<close>; \<^verbatim>\<open>disconnect\<close> has no such statements. In the session in which alice
  is consumed, Disconnect leaves both transports open and the two producers and the
  two consumers registered, where Stop Broadcasting closes and clears them.\<close>

theorem disconnect_keeps_transports_and_registries:
  "isConnected s_alice \<and> isBroadcasting s_alice \<and>
   map t_closed (transports (step s_alice ClickDisconnect)) = [False, False] \<and>
   producersRef (step s_alice ClickDisconnect) ''video'' \<noteq> None \<and>
   producersRef (step s_alice ClickDisconnect) ''audio'' \<noteq> None \<and>
   consumersRef (step s_alice ClickDisconnect) ''c1'' \<noteq> None \<and>
   consumersRef (step s_alice ClickDisconnect) ''c2'' \<noteq> None \<and>
   map t_closed (transports (step s_alice ClickStopBroadcast)) = [True, True] \<and>
   producersRef (step s_alice ClickStopBroadcast) ''video'' = None \<and>
   producersRef (step s_alice ClickStopBroadcast) ''audio'' = None \<and>
   consumersRef (step s_alice ClickStopBroadcast) ''c1'' = None \<and>
   consumersRef (step s_alice ClickStopBroadcast) ''c2'' = None"
  by code_simp

subsection \<open>C9: a peer disconnects\<close>

text \<open>C9: the \<^verbatim>\<open>peerDisconnected\<close> notification, on an open socket, removes the entry
  of that user from the participant map and changes nothing else: the consumers
  stay registered, and the producers, the transports, the refs, the flags and the
  task pool are what they were.\<close>

theorem peerDisconnected_removes_only_the_participant:
  assumes "k < length (sockets s)" and "s_open (sockets s ! k)"
  shows "step s (SocketEvent k (PeerDisconnected u)) = s\<lparr>participants := (participants s)(u := None)\<rparr>"
  using assms by (simp add: step_def socketEvent_def peerDisconnected_def)

text \<open>C9 at the session in which alice is consumed: her entry goes, her consumer
  \<open>c1\<close> stays.\<close>

theorem peerDisconnected_removes_only_the_participant_witness:
  "0 < length (sockets s_alice) \<and> s_open (sockets s_alice ! 0) \<and>
   participants s_alice ''alice'' \<noteq> None \<and> consumersRef s_alice ''c1'' \<noteq> None \<and>
   step s_alice (SocketEvent 0 (PeerDisconnected ''alice'')) =
     s_alice\<lparr>participants := (participants s_alice)(''alice'' := None)\<rparr>"
proof -
  have h1: "0 < length (sockets s_alice)" by code_simp
  have h2: "s_open (sockets s_alice ! 0)" by code_simp
  have h3: "participants s_alice ''alice'' \<noteq> None" by code_simp
  have h4: "consumersRef s_alice ''c1'' \<noteq> None" by code_simp
  from peerDisconnected_removes_only_the_participant [OF h1 h2, of "''alice''"] h1 h2 h3 h4
  show ?thesis by simp
qed

subsection \<open>C10: the queue after it has been drained\<close>

text \<open>C10: an announcement is added to the pending producers only in a state in
  which no device exists yet, by the \<^verbatim>\<open>newProducer\<close> listener; and from a state in
  which the queue has been drained (a device exists, the queue is empty, no task is
  in the loop over it), whatever happens next, the queue stays empty, no task is
  ever in that loop again, and the \<^verbatim>\<open>routerCapabilities\<close> listener, when it comes to
  the pending producers, finds none and returns.\<close>

theorem pending_queue_stays_drained:
  "(length (pendingProducersRef s) < length (pendingProducersRef (step s e)) \<longrightarrow>
      deviceRef s = None \<and>
      (\<exists>k a. e = SocketEvent k (NewProducer a) \<and>
         pendingProducersRef (step s e) = pendingProducersRef s @ [a])) \<and>
   (drained s \<longrightarrow>
      pendingProducersRef (run s es) = [] \<and> nodrain (run s es) \<and> deviceRef (run s es) \<noteq> None \<and>
      afterProduce i uid (run s es) =
        (case emit RefreshProducers (run s es) of
           None \<Rightarrow> setTask i T_hung (run s es) | Some s1 \<Rightarrow> setTask i T_done s1))"
proof -
  have A: "length (pendingProducersRef s) < length (pendingProducersRef (step s e)) \<longrightarrow>
      deviceRef s = None \<and>
      (\<exists>k a. e = SocketEvent k (NewProducer a) \<and>
         pendingProducersRef (step s e) = pendingProducersRef s @ [a])"
    using pending_step [of s e] by auto
  have B: "pendingProducersRef (run s es) = [] \<and> nodrain (run s es) \<and> deviceRef (run s es) \<noteq> None \<and>
      afterProduce i uid (run s es) =
        (case emit RefreshProducers (run s es) of
           None \<Rightarrow> setTask i T_hung (run s es) | Some s1 \<Rightarrow> setTask i T_done s1)" if "drained s"
    using drained_run [OF that, of es] afterProduce_drained [of "run s es" i uid]
    by (simp add: drained_def)
  from A B show ?thesis by blast
qed

text \<open>C10 at the announcement of \<open>early\<close>, which is queued before a device exists, and
  at the session in which that queue has been drained, followed by another
  announcement, a second \<^verbatim>\<open>routerCapabilities\<close> notification and its negotiation.\<close>

theorem pending_queue_stays_drained_witness:
  "length (pendingProducersRef s_started) <
     length (pendingProducersRef (step s_started (SocketEvent 0 (NewProducer (ann ''p1'' ''early'' ''video''))))) \<and>
   deviceRef s_started = None \<and>
   drained s_overtaken_end \<and>
   pendingProducersRef (run s_overtaken_end ev_after_drain) = [] \<and>
   nodrain (run s_overtaken_end ev_after_drain)"
proof -
  have h1: "length (pendingProducersRef s_started) <
     length (pendingProducersRef (step s_started (SocketEvent 0 (NewProducer (ann ''p1'' ''early'' ''video'')))))"
    by code_simp
  have h2: "drained s_overtaken_end" by code_simp
  from pending_queue_stays_drained [of s_started "SocketEvent 0 (NewProducer (ann ''p1'' ''early'' ''video''))"
      ev_after_drain 0 "''me''"]
    pending_queue_stays_drained [of s_overtaken_end ClickConnect ev_after_drain 0 "''me''"] h1 h2
  show ?thesis by blast
qed

end
